theory Spec2Isabelle
  imports Complex_Main "HOL-Library.Word" "HOL-Library.Log_Nat"
begin

section \<open>The AQUALOC monocular driver (Examples/Monocular/mono\_aqualoc.cc)\<close>

text \<open>
  The driver has two functions: \<open>LoadImages\<close>, which reads the association file, and
  \<open>main\<close>, which replays the frames into the ORB-SLAM3 engine. Both are embedded here.

  Conventions of the embedding.
  \<^item> A C++ \<open>double\<close> is a real number: the rounding of \<open>double\<close> arithmetic is not
    modelled. The one place where the range of a \<open>double\<close> decides control flow (an
    out-of-range literal makes the numeric extraction fail) is written out.
  \<^item> A \<open>float\<close> is the real number it stands for. The \<open>float\<close> product that sizes the
    resized frame is rounded to binary32, since its truncation shows the rounding; the
    tracking times stored as \<open>float\<close> are not rounded.
  \<^item> A floating-point value converted to an integer type is truncated towards zero. Outside
    the range of the target type the C++ standard leaves the conversion undefined; the model
    takes what the x86-64 code of GCC yields.
  \<^item> A \<open>std::string\<close> is a \<open>string\<close>, a \<open>std::vector\<close> is a list, \<open>push_back\<close> appends
    at the end.
  \<^item> Reading a vector out of range, or reading a variable that was never assigned, is
    undefined behaviour in C++; the model returns \<open>None\<close> there.
  \<^item> The calls into the standard stream library follow the C++ standard and the GNU
    implementation in the "C" locale (the program never changes the locale); reading an
    opened file is taken not to fail.
\<close>

type_synonym double = real

subsection \<open>Characters\<close>

text \<open>\<open>isspace\<close> in the "C" locale: space, \<open>\t\<close>, \<open>\n\<close>, \<open>\v\<close>, \<open>\f\<close>, \<open>\r\<close>.\<close>

definition isspace :: "char \<Rightarrow> bool" where
  "isspace c = (c = CHR '' '' \<or> c = CHR 0x09 \<or> c = CHR 0x0A \<or> c = CHR 0x0B
                \<or> c = CHR 0x0C \<or> c = CHR 0x0D)"

definition isdigit :: "char \<Rightarrow> bool" where
  "isdigit c = (c \<in> set ''0123456789'')"

definition digit_of :: "char \<Rightarrow> nat" where
  "digit_of c = of_char c - 48"

definition digits_val :: "string \<Rightarrow> nat" where
  "digits_val ds = foldl (\<lambda>a c. 10 * a + digit_of c) 0 ds"

subsection \<open>The string stream\<close>

text \<open>
  A \<open>stringstream\<close> after \<open>ss << s\<close>: the characters not yet read and the two state bits
  the extractions look at.
\<close>

record sstream =
  buf :: string
  failbit :: bool
  eofbit :: bool

definition sstream_of :: "string \<Rightarrow> sstream" where
  "sstream_of s = \<lparr>buf = s, failbit = False, eofbit = False\<rparr>"

definition good :: "sstream \<Rightarrow> bool" where
  "good ss = (\<not> failbit ss \<and> \<not> eofbit ss)"

text \<open>
  The sentry of a formatted input function: it fails on a stream that is not good, else
  skips leading white space and fails when that reaches the end of the stream.
\<close>

definition sentry :: "sstream \<Rightarrow> bool \<times> sstream" where
  "sentry ss =
     (if \<not> good ss then (False, ss\<lparr>failbit := True\<rparr>)
      else let r = dropWhile isspace (buf ss) in
        if r = [] then (False, ss\<lparr>buf := [], failbit := True, eofbit := True\<rparr>)
        else (True, ss\<lparr>buf := r\<rparr>))"

text \<open>
  The characters \<open>num_get\<close> accumulates for a floating-point value: an optional sign,
  digits, at most one decimal point with digits, and, once a mantissa digit has been
  seen, an exponent letter with an optional sign and digits. Scanning stops at the first
  character that does not fit; the second component is what is left in the stream.
\<close>

record numlit =
  neg :: bool
  ipart :: string
  fpart :: string
  has_exp :: bool
  eneg :: bool
  epart :: string

definition scan_sign :: "string \<Rightarrow> bool \<times> string" where
  "scan_sign cs =
     (case cs of
        [] \<Rightarrow> (False, cs)
      | c # r \<Rightarrow> if c = CHR ''+'' \<or> c = CHR ''-'' then (c = CHR ''-'', r) else (False, cs))"

definition scan_frac :: "string \<Rightarrow> string \<times> string" where
  "scan_frac cs =
     (case cs of
        [] \<Rightarrow> ([], cs)
      | c # r \<Rightarrow> if c = CHR ''.'' then (takeWhile isdigit r, dropWhile isdigit r)
                 else ([], cs))"

definition scan_exp :: "bool \<Rightarrow> string \<Rightarrow> (bool \<times> bool \<times> string) \<times> string" where
  "scan_exp found_mantissa cs =
     (case cs of
        [] \<Rightarrow> ((False, False, []), cs)
      | c # r \<Rightarrow>
          if (c = CHR ''e'' \<or> c = CHR ''E'') \<and> found_mantissa then
            (case scan_sign r of
               (sg, r') \<Rightarrow> ((True, sg, takeWhile isdigit r'), dropWhile isdigit r'))
          else ((False, False, []), cs))"

definition scan_float :: "string \<Rightarrow> numlit \<times> string" where
  "scan_float cs =
     (case scan_sign cs of (sg, r0) \<Rightarrow>
      case scan_frac (dropWhile isdigit r0) of (fp, r2) \<Rightarrow>
      case scan_exp (takeWhile isdigit r0 \<noteq> [] \<or> fp \<noteq> []) r2 of ((he, es, ep), r3) \<Rightarrow>
        (\<lparr>neg = sg, ipart = takeWhile isdigit r0, fpart = fp,
          has_exp = he, eneg = es, epart = ep\<rparr>, r3))"

text \<open>
  The accumulated characters go to \<open>strtod\<close>, which must consume all of them: that needs
  a mantissa digit and, after an exponent letter, an exponent digit.
\<close>

definition lit_valid :: "numlit \<Rightarrow> bool" where
  "lit_valid l = ((ipart l \<noteq> [] \<or> fpart l \<noteq> []) \<and> (has_exp l \<longrightarrow> epart l \<noteq> []))"

definition lit_value :: "numlit \<Rightarrow> real" where
  "lit_value l =
     (if neg l then - 1 else 1)
     * (real (digits_val (ipart l)) + real (digits_val (fpart l)) / 10 ^ length (fpart l))
     * (if eneg l then 1 / 10 ^ digits_val (epart l) else 10 ^ digits_val (epart l))"

text \<open>
  \<open>DBL_MAX\<close> is the largest finite \<open>double\<close>; a decimal value rounds to infinity, and
  \<open>strtod\<close> returns \<open>HUGE_VAL\<close>, from \<open>DBL_ROUND_INF\<close> on.
\<close>

definition DBL_MAX :: real where
  "DBL_MAX = 2 ^ 1024 - 2 ^ 971"

definition DBL_ROUND_INF :: real where
  "DBL_ROUND_INF = 2 ^ 1024 - 2 ^ 970"

text \<open>
  \<open>ss >> t\<close> for a \<open>double t\<close>. The first component is the value stored in \<open>t\<close>, \<open>None\<close>
  when the sentry fails and \<open>t\<close> is left as it was. A malformed literal stores 0 and sets
  \<open>failbit\<close>; an out-of-range one stores \<open>\<plusminus>DBL_MAX\<close> and sets \<open>failbit\<close>.
\<close>

definition extract_double :: "sstream \<Rightarrow> double option \<times> sstream" where
  "extract_double ss =
     (case sentry ss of
        (False, ss1) \<Rightarrow> (None, ss1)
      | (True, ss1) \<Rightarrow>
          (case scan_float (buf ss1) of (l, r) \<Rightarrow>
             let ss2 = ss1\<lparr>buf := r, eofbit := (r = [])\<rparr> in
             if \<not> lit_valid l then (Some 0, ss2\<lparr>failbit := True\<rparr>)
             else if DBL_ROUND_INF \<le> \<bar>lit_value l\<bar>
               then (Some (if neg l then - DBL_MAX else DBL_MAX), ss2\<lparr>failbit := True\<rparr>)
             else (Some (lit_value l), ss2)))"

text \<open>
  \<open>ss >> str\<close> for a \<open>std::string str\<close>: when the sentry fails \<open>str\<close> is untouched, else
  it is replaced by the characters up to the next white space.
\<close>

definition extract_string :: "sstream \<Rightarrow> string \<Rightarrow> string \<times> sstream" where
  "extract_string ss str =
     (case sentry ss of
        (False, ss1) \<Rightarrow> (str, ss1)
      | (True, ss1) \<Rightarrow>
          (let w = takeWhile (\<lambda>c. \<not> isspace c) (buf ss1);
               r = dropWhile (\<lambda>c. \<not> isspace c) (buf ss1)
           in (w, ss1\<lparr>buf := r, eofbit := (r = []), failbit := (w = [])\<rparr>)))"

subsection \<open>LoadImages\<close>

text \<open>
  The two output vectors, in the order of the parameter list:
  \<open>vstrImageFilenames\<close> and \<open>vTimestamps\<close>.
\<close>

type_synonym vectors = "string list \<times> double list"

text \<open>
  The body of the \<open>while\<close> loop for one line \<open>s\<close> (lines 133 to 147). \<open>None\<close> is the read
  of a \<open>t\<close> that no extraction has assigned.
\<close>

definition process_line :: "string \<Rightarrow> vectors \<Rightarrow> vectors option" where
  "process_line s v =
     (case v of (vstrImageFilenames, vTimestamps) \<Rightarrow>
        if s \<noteq> [] \<and> hd s \<noteq> CHR ''#'' then
          (case extract_double (sstream_of s) of (t, ss1) \<Rightarrow>
           case extract_string ss1 [] of (sRGB, ss2) \<Rightarrow>
             if sRGB \<noteq> [] then
               (case t of
                  None \<Rightarrow> None
                | Some tv \<Rightarrow> Some (vstrImageFilenames @ [sRGB], vTimestamps @ [tv]))
             else Some v)
        else Some v)"

text \<open>
  \<open>getline(f, s)\<close> on the unread part of the file: the line without its newline, and the
  rest of the file, \<open>None\<close> when the end of the file was reached while reading (\<open>eof()\<close>
  is then true).
\<close>

fun getline :: "string \<Rightarrow> string \<times> string option" where
  "getline [] = ([], None)"
| "getline (c # cs) =
     (if c = CHR 0x0A then ([], Some cs)
      else (case getline cs of (l, r) \<Rightarrow> (c # l, r)))"

lemma getline_shorter: "getline cs = (l, Some r) \<Longrightarrow> length r < length cs"
  by (induction cs arbitrary: l r) (auto split: if_splits prod.splits)

text \<open>The loop \<open>while(!fAssociation.eof())\<close> over the unread part of the file.\<close>

function read_loop :: "string \<Rightarrow> vectors \<Rightarrow> vectors option" where
  "read_loop cs v =
     (case getline cs of (s, rest) \<Rightarrow>
       (case process_line s v of
          None \<Rightarrow> None
        | Some v' \<Rightarrow> (case rest of None \<Rightarrow> Some v' | Some cs' \<Rightarrow> read_loop cs' v')))"
  by pat_completeness auto
termination
  by (relation "measure (\<lambda>(cs, v). length cs)") (auto dest: getline_shorter [OF sym])

declare read_loop.simps [simp del]

text \<open>
  The file system is a parameter: \<open>fs path\<close> is the content of the file that opens under
  \<open>path\<close>, \<open>None\<close> when it cannot be opened. Output to \<open>cerr\<close> and \<open>cout\<close> is a list
  of the items inserted.
\<close>

datatype item = Str string | Num real | Endl

text \<open>
  \<open>LoadImages\<close>: the updated vectors and what was written to \<open>cerr\<close>.
\<close>

definition LoadImages :: "(string \<Rightarrow> string option) \<Rightarrow> string \<Rightarrow> vectors \<Rightarrow> (vectors \<times> item list) option" where
  "LoadImages fs strAssociationFile v =
     (case fs strAssociationFile of
        None \<Rightarrow> Some (v, [Str ''ERROR: Cannot open association file: '', Str strAssociationFile, Endl])
      | Some content \<Rightarrow>
          (case read_loop content v of None \<Rightarrow> None | Some v' \<Rightarrow> Some (v', [])))"

subsection \<open>The collaborators of main\<close>

text \<open>
  A \<open>cv::Mat\<close>, as far as the driver looks at it: its size and its pixel data (the empty
  list for a null data pointer). \<open>Mat::empty()\<close> is true when there is no data or no
  element.
\<close>

record Mat =
  rows :: int
  cols :: int
  data :: "nat list"

definition Mat_empty :: "Mat \<Rightarrow> bool" where
  "Mat_empty m = (data m = [] \<or> rows m * cols m = 0)"

text \<open>
  What the run depends on and the driver does not compute: the file system, OpenCV's
  \<open>imread\<close> and \<open>resize\<close>, the scale the engine reports, and the seconds the steady
  clock measures around \<open>TrackMonocular\<close> in iteration \<open>ni\<close>. The calls into OpenCV and
  into the engine are taken to return.
\<close>

record env =
  fs :: "string \<Rightarrow> string option"
  imread :: "string \<Rightarrow> Mat"
  resize :: "Mat \<Rightarrow> int \<Rightarrow> int \<Rightarrow> Mat"
  GetImageScale :: real
  ttrack_of :: "int \<Rightarrow> double"

text \<open>
  The calls the driver makes, in order. \<open>Usleep u\<close> carries the number of microseconds
  that \<open>usleep\<close> receives: the \<open>useconds_t\<close> value that the argument expression
  \<open>(T - ttrack) * 1e6\<close> is converted to.
\<close>

datatype call =
    System_ctor string string
  | Imread string
  | TrackMonocular Mat double
  | Usleep "32 word"
  | Shutdown
  | SaveKeyFrameTrajectoryTUM string
  | SaveTrajectoryTUM string

record world =
  cout :: "item list"
  cerr :: "item list"
  calls :: "call list"

definition to_cout :: "item list \<Rightarrow> world \<Rightarrow> world" where
  "to_cout xs w = w\<lparr>cout := cout w @ xs\<rparr>"

definition to_cerr :: "item list \<Rightarrow> world \<Rightarrow> world" where
  "to_cerr xs w = w\<lparr>cerr := cerr w @ xs\<rparr>"

definition does :: "call list \<Rightarrow> world \<Rightarrow> world" where
  "does cs w = w\<lparr>calls := calls w @ cs\<rparr>"

subsection \<open>Vectors and integers\<close>

text \<open>\<open>v[i]\<close> as a read and as a write; out of range is undefined behaviour.\<close>

definition vec_at :: "'a list \<Rightarrow> int \<Rightarrow> 'a option" where
  "vec_at v i = (if 0 \<le> i \<and> i < int (length v) then Some (v ! nat i) else None)"

definition vec_put :: "'a list \<Rightarrow> int \<Rightarrow> 'a \<Rightarrow> 'a list option" where
  "vec_put v i x = (if 0 \<le> i \<and> i < int (length v) then Some (v[nat i := x]) else None)"

text \<open>\<open>int n = v.size()\<close>: the size is reduced to 32 bits and read as signed.\<close>

definition size_to_int :: "nat \<Rightarrow> int" where
  "size_to_int n = sint (word_of_nat n :: 32 word)"

text \<open>\<open>int\<close> division truncates towards zero.\<close>

definition c_div :: "int \<Rightarrow> int \<Rightarrow> int" where
  "c_div a b = sgn a * sgn b * (\<bar>a\<bar> div \<bar>b\<bar>)"

subsection \<open>Floating-point values and their conversions\<close>

text \<open>Truncation towards zero.\<close>

definition toward_zero :: "real \<Rightarrow> int" where
  "toward_zero x = (if 0 \<le> x then \<lfloor>x\<rfloor> else \<lceil>x\<rceil>)"

text \<open>
  \<open>int n = x\<close> for a floating-point \<open>x\<close>: the truncated value when it is in the range
  of \<open>int\<close>, else \<open>INT_MIN\<close> (what the conversion instruction yields).
\<close>

definition to_int :: "real \<Rightarrow> int" where
  "to_int x =
     (if - (2 ^ 31) \<le> toward_zero x \<and> toward_zero x < 2 ^ 31 then toward_zero x
      else - (2 ^ 31))"

text \<open>
  A \<open>double\<close> passed for the \<open>useconds_t\<close> parameter of \<open>usleep\<close> (an unsigned 32-bit
  integer): the truncated value reduced to its low 32 bits; from \<open>2^63\<close> on, zero.
\<close>

definition to_useconds :: "real \<Rightarrow> 32 word" where
  "to_useconds x = (if \<bar>x\<bar> < 2 ^ 63 then word_of_int (toward_zero x) else 0)"

text \<open>
  Rounding to binary32, to nearest with ties to even. \<open>ilog2 a\<close> is the exponent \<open>e\<close> with
  \<open>2^e \<le> a < 2^(e+1)\<close> of a positive \<open>a\<close>; the unit in the last place of \<open>x\<close> is
  \<open>2^(e - 23)\<close>, with \<open>e\<close> no less than -126. A value that rounds to infinity is given as
  \<open>\<plusminus>2^128\<close>, which every conversion to \<open>int\<close> treats as out of range.
\<close>

definition ilog2 :: "real \<Rightarrow> int" where
  "ilog2 a = (if 1 \<le> a then bitlen \<lfloor>a\<rfloor> - 1 else - bitlen (\<lceil>1 / a\<rceil> - 1))"

definition round_even :: "real \<Rightarrow> int" where
  "round_even y =
     (if y - of_int \<lfloor>y\<rfloor> < 1 / 2 then \<lfloor>y\<rfloor>
      else if 1 / 2 < y - of_int \<lfloor>y\<rfloor> then \<lfloor>y\<rfloor> + 1
      else if even \<lfloor>y\<rfloor> then \<lfloor>y\<rfloor> else \<lfloor>y\<rfloor> + 1)"

definition binary32 :: "real \<Rightarrow> real" where
  "binary32 x =
     (if x = 0 then 0
      else let ulp = 2 powi (max (ilog2 \<bar>x\<bar>) (- 126) - 23);
               r = of_int (round_even (x / ulp)) * ulp
           in if 2 ^ 128 \<le> \<bar>r\<bar> then sgn x * 2 ^ 128 else r)"

text \<open>
  \<open>int n = k * s\<close> for an \<open>int k\<close> and a \<open>float s\<close> (lines 69 and 70): \<open>k\<close> is converted
  to \<open>float\<close>, the product is a \<open>float\<close>, and its conversion to \<open>int\<close> is stored.
\<close>

definition scaled_size :: "int \<Rightarrow> real \<Rightarrow> int" where
  "scaled_size k s = to_int (binary32 (binary32 (of_int k) * s))"

subsection \<open>main\<close>

text \<open>Lines 86 to 90: the interval \<open>T\<close> the loop waits for after frame \<open>ni\<close>.\<close>

definition pacing_T :: "double list \<Rightarrow> int \<Rightarrow> int \<Rightarrow> double \<Rightarrow> double option" where
  "pacing_T vTimestamps nImages ni tframe =
     (if ni < nImages - 1 then
        (case vec_at vTimestamps (ni + 1) of None \<Rightarrow> None | Some t1 \<Rightarrow> Some (t1 - tframe))
      else if ni > 0 then
        (case vec_at vTimestamps (ni - 1) of None \<Rightarrow> None | Some t0 \<Rightarrow> Some (tframe - t0))
      else Some 0)"

text \<open>
  The main loop from index \<open>ni\<close> on (lines 54 to 94). \<open>Inl c\<close> is \<open>return c\<close> out of
  \<open>main\<close>, \<open>Inr\<close> the vector of tracking times when the loop ends; \<open>None\<close> is undefined
  behaviour.
\<close>

function main_loop ::
  "env \<Rightarrow> string list \<Rightarrow> double list \<Rightarrow> int \<Rightarrow> real \<Rightarrow> int \<Rightarrow> double list \<Rightarrow> world
   \<Rightarrow> ((int + double list) \<times> world) option" where
  "main_loop e vstrImageFilenames vTimestamps nImages imageScale ni vTimesTrack w =
     (if ni < nImages then
        (case vec_at vstrImageFilenames ni of
           None \<Rightarrow> None
         | Some fname \<Rightarrow>
            (case vec_at vTimestamps ni of
               None \<Rightarrow> None
             | Some tframe \<Rightarrow>
                 if Mat_empty (imread e fname) then
                   Some (Inl 1, to_cerr [Endl, Str ''Failed to load image at: '', Str fname, Endl]
                                  (does [Imread fname] w))
                 else
                   (case vec_put vTimesTrack ni (ttrack_of e ni) of
                      None \<Rightarrow> None
                    | Some vTimesTrack' \<Rightarrow>
                       (case pacing_T vTimestamps nImages ni tframe of
                          None \<Rightarrow> None
                        | Some T \<Rightarrow>
                            main_loop e vstrImageFilenames vTimestamps nImages imageScale (ni + 1)
                              vTimesTrack'
                              (does
                                ([Imread fname,
                                  TrackMonocular
                                    (if imageScale \<noteq> 1 then
                                       resize e (imread e fname)
                                         (scaled_size (cols (imread e fname)) imageScale)
                                         (scaled_size (rows (imread e fname)) imageScale)
                                     else imread e fname)
                                    tframe]
                                 @ (if ttrack_of e ni < T
                                    then [Usleep (to_useconds ((T - ttrack_of e ni) * 1000000))]
                                    else []))
                                w)))))
      else Some (Inr vTimesTrack, w))"
  by pat_completeness auto
termination
  by (relation "measure (\<lambda>(e, fs, ts, nImages, sc, ni, v, w). nat (nImages - ni))") auto

declare main_loop.simps [simp del]

text \<open>Lines 101 to 105: the loop that adds up the sorted tracking times.\<close>

function sum_loop :: "double list \<Rightarrow> int \<Rightarrow> int \<Rightarrow> real \<Rightarrow> real option" where
  "sum_loop vTimesTrack nImages ni totaltime =
     (if ni < nImages then
        (case vec_at vTimesTrack ni of
           None \<Rightarrow> None
         | Some x \<Rightarrow> sum_loop vTimesTrack nImages (ni + 1) (totaltime + x))
      else Some totaltime)"
  by pat_completeness auto
termination
  by (relation "measure (\<lambda>(v, nImages, ni, t). nat (nImages - ni))") auto

declare sum_loop.simps [simp del]

text \<open>
  Lines 100 to 108: sort the tracking times, add them up, print the median and the mean.
\<close>

definition statistics :: "double list \<Rightarrow> int \<Rightarrow> world \<Rightarrow> world option" where
  "statistics vTimesTrack nImages w =
     (case sum_loop (sort vTimesTrack) nImages 0 0 of
        None \<Rightarrow> None
      | Some totaltime \<Rightarrow>
         (case vec_at (sort vTimesTrack) (c_div nImages 2) of
            None \<Rightarrow> None
          | Some median \<Rightarrow>
              Some (to_cout [Str ''-------'', Endl, Endl,
                             Str ''median tracking time: '', Num median, Endl,
                             Str ''mean tracking time: '', Num (totaltime / of_int nImages), Endl]
                      w)))"

definition banner :: "int \<Rightarrow> item list" where
  "banner nImages =
     [Endl, Str ''-------'', Endl, Str ''AQUALOC Monocular SLAM'', Endl,
      Str ''Images in sequence: '', Num (of_int nImages), Endl, Str ''-------'', Endl, Endl]"

definition usage :: "item list" where
  "usage = [Endl,
     Str ''Usage: ./mono_aqualoc path_to_vocabulary path_to_settings path_to_associations'',
     Endl]"

text \<open>
  \<open>main\<close> on the argument vector \<open>argv\<close> (\<open>argc\<close> is its length), started with empty
  output streams: the exit code and the world it leaves.
\<close>

definition main :: "env \<Rightarrow> string list \<Rightarrow> (int \<times> world) option" where
  "main e argv =
     (case argv of
        [a0, a1, a2, a3] \<Rightarrow>
          (case LoadImages (fs e) a3 ([], []) of
             None \<Rightarrow> None
           | Some ((vstrImageFilenames, vTimestamps), msgs) \<Rightarrow>
               let w1 = to_cerr msgs \<lparr>cout = [], cerr = [], calls = []\<rparr>;
                   nImages = size_to_int (length vstrImageFilenames)
               in
               if nImages \<le> 0 then
                 Some (1, to_cerr [Str ''ERROR: No images found in association file.'', Endl] w1)
               else
                 (case main_loop e vstrImageFilenames vTimestamps nImages (GetImageScale e) 0
                         (replicate (nat nImages) 0)
                         (does [System_ctor a1 a2] (to_cout (banner nImages) w1)) of
                    None \<Rightarrow> None
                  | Some (Inl c, w2) \<Rightarrow> Some (c, w2)
                  | Some (Inr vTimesTrack, w2) \<Rightarrow>
                      (case statistics vTimesTrack nImages (does [Shutdown] w2) of
                         None \<Rightarrow> None
                       | Some w3 \<Rightarrow>
                           Some (0, does [SaveKeyFrameTrajectoryTUM ''KeyFrameTrajectory.txt'',
                                          SaveTrajectoryTUM ''CameraTrajectory.txt''] w3))))
      | _ \<Rightarrow> Some (1, to_cerr usage \<lparr>cout = [], cerr = [], calls = []\<rparr>))"

section \<open>Notions of the specification\<close>

text \<open>
  A string stops a numeric scan when it is empty or starts with white space: what follows
  a token in a line.
\<close>

definition stopper :: "string \<Rightarrow> bool" where
  "stopper r = (r = [] \<or> isspace (hd r))"

text \<open>
  The lines of a file: the strings that the successive calls of \<open>getline\<close> return until
  the end of the file is reached. A file that ends in a newline has an empty last line.
\<close>

function file_lines :: "string \<Rightarrow> string list" where
  "file_lines cs =
     (case getline cs of
        (s, None) \<Rightarrow> [s]
      | (s, Some rest) \<Rightarrow> s # file_lines rest)"
  by pat_completeness auto
termination
  by (relation "measure length") (auto dest: getline_shorter [OF sym])

declare file_lines.simps [simp del]

lemma after_space_shorter:
  "dropWhile isspace s \<noteq> [] \<Longrightarrow>
   length (dropWhile (\<lambda>c. \<not> isspace c) (dropWhile isspace s)) < length s"
proof -
  assume ne: "dropWhile isspace s \<noteq> []"
  then have "\<not> isspace (hd (dropWhile isspace s))" by (rule hd_dropWhile)
  with ne have "dropWhile (\<lambda>c. \<not> isspace c) (dropWhile isspace s)
      = dropWhile (\<lambda>c. \<not> isspace c) (tl (dropWhile isspace s))"
    by (cases "dropWhile isspace s") auto
  moreover have "length (dropWhile (\<lambda>c. \<not> isspace c) (tl (dropWhile isspace s)))
      \<le> length (tl (dropWhile isspace s))" by (rule length_dropWhile_le)
  moreover have "length (tl (dropWhile isspace s)) < length (dropWhile isspace s)"
    using ne by (cases "dropWhile isspace s") auto
  moreover have "length (dropWhile isspace s) \<le> length s" by (rule length_dropWhile_le)
  ultimately show ?thesis by simp
qed

text \<open>
  The white-space-delimited tokens of a line, in order: maximal runs of characters that are
  not white space.
\<close>

function tokens :: "string \<Rightarrow> string list" where
  "tokens s =
     (let r = dropWhile isspace s in
      if r = [] then []
      else takeWhile (\<lambda>c. \<not> isspace c) r # tokens (dropWhile (\<lambda>c. \<not> isspace c) r))"
  by pat_completeness auto
termination
  by (relation "measure length") (auto simp del: dropWhile_eq_Nil_conv dest: after_space_shorter)

declare tokens.simps [simp del]

text \<open>
  A token parses as a floating-point number when the numeric extraction, applied to the
  token alone, succeeds and consumes all of it; the result is its value.
\<close>

definition parse_double :: "string \<Rightarrow> double option" where
  "parse_double w =
     (case extract_double (sstream_of w) of
        (Some t, ss) \<Rightarrow> if \<not> failbit ss \<and> buf ss = [] then Some t else None
      | (None, ss) \<Rightarrow> None)"

text \<open>The vectors after the loop body has run on each of the given lines in turn.\<close>

fun after_lines :: "string list \<Rightarrow> vectors \<Rightarrow> vectors option" where
  "after_lines [] v = Some v"
| "after_lines (s # ls) v =
     (case process_line s v of None \<Rightarrow> None | Some v' \<Rightarrow> after_lines ls v')"

text \<open>
  The number at the start of a string, with what follows it, when the scan there yields a
  literal that \<open>strtod\<close> accepts in the range of a \<open>double\<close>.
\<close>

definition num_prefix :: "string \<Rightarrow> (real \<times> string) option" where
  "num_prefix r =
     (case scan_float r of (l, rest) \<Rightarrow>
        if lit_valid l \<and> \<bar>lit_value l\<bar> < DBL_ROUND_INF then Some (lit_value l, rest)
        else None)"

text \<open>
  A comment is a line whose first character that is not white space is \<open>#\<close>.
\<close>

definition is_comment :: "string \<Rightarrow> bool" where
  "is_comment s = (dropWhile isspace s \<noteq> [] \<and> hd (dropWhile isspace s) = CHR ''#'')"

text \<open>
  Decimal notation, read off the written form and not through the stream: the value of a
  decimal digit is its place among the ten digits, and the value of a string of digits
  is the sum of the digit values, each times the power of ten of its position.
\<close>

definition digit_value :: "char \<Rightarrow> nat" where
  "digit_value c = length (takeWhile (\<lambda>d. d \<noteq> c) ''0123456789'')"

definition is_decimal_digit :: "char \<Rightarrow> bool" where
  "is_decimal_digit c = (digit_value c < 10)"

fun decimal :: "string \<Rightarrow> nat" where
  "decimal [] = 0"
| "decimal (c # cs) = digit_value c * 10 ^ length cs + decimal cs"

text \<open>
  A string cut at its first character with a given property: the part before it and,
  when there is such a character, the part after it. A string without its sign, and
  whether the sign is a minus.
\<close>

definition split_at :: "(char \<Rightarrow> bool) \<Rightarrow> string \<Rightarrow> string \<times> string option" where
  "split_at P s =
     (case dropWhile (\<lambda>c. \<not> P c) s of
        [] \<Rightarrow> (s, None)
      | c # r \<Rightarrow> (takeWhile (\<lambda>c. \<not> P c) s, Some r))"

definition unsigned :: "string \<Rightarrow> string" where
  "unsigned s = (case s of [] \<Rightarrow> [] | c # r \<Rightarrow> if c = CHR ''+'' \<or> c = CHR ''-'' then r else s)"

definition negative :: "string \<Rightarrow> bool" where
  "negative s = (case s of [] \<Rightarrow> False | c # r \<Rightarrow> c = CHR ''-'')"

text \<open>
  A token is a floating-point literal when it is written as an optional sign, a mantissa
  and an optional exponent: the mantissa is a string of digits with at most one decimal
  point and at least one digit; the exponent is the letter \<open>e\<close> or \<open>E\<close>, an optional sign
  and at least one digit. Its value is the mantissa times ten to the exponent, with the
  sign. A token parses as a floating-point number when it is such a literal and its value
  is in the range of a 64-bit float, that is, rounds to a finite one: its absolute value
  is below \<open>2^1024 - 2^970\<close>, halfway between the largest 64-bit float and \<open>2^1024\<close>.
\<close>

definition float_literal :: "string \<Rightarrow> real option" where
  "float_literal w =
     (case split_at (\<lambda>c. c = CHR ''e'' \<or> c = CHR ''E'') (unsigned w) of (mant, ex) \<Rightarrow>
      case split_at (\<lambda>c. c = CHR ''.'') mant of (ip, fp) \<Rightarrow>
        let fd = (case fp of None \<Rightarrow> [] | Some f \<Rightarrow> f);
            xd = (case ex of None \<Rightarrow> [] | Some x \<Rightarrow> unsigned x)
        in if list_all is_decimal_digit ip \<and> list_all is_decimal_digit fd \<and> ip @ fd \<noteq> []
              \<and> list_all is_decimal_digit xd \<and> (ex \<noteq> None \<longrightarrow> xd \<noteq> [])
           then Some ((if negative w then - 1 else 1)
                      * (real (decimal ip) + real (decimal fd) / 10 ^ length fd)
                      * (case ex of
                           None \<Rightarrow> 1
                         | Some x \<Rightarrow> if negative x then 1 / 10 ^ decimal xd else 10 ^ decimal xd))
           else None)"

definition double_of_token :: "string \<Rightarrow> real option" where
  "double_of_token w =
     (case float_literal w of
        None \<Rightarrow> None
      | Some v \<Rightarrow> if \<bar>v\<bar> < 2 ^ 1024 - 2 ^ 970 then Some v else None)"

text \<open>
  A line is well formed when it is empty, is a comment, or its first token (if it has one)
  parses as a floating-point number. A line is counted when it is not empty, is not a
  comment and has a second token. \<open>first_time\<close> is the value of the first token of a
  line, \<open>second_token\<close> its second token.
\<close>

definition wellformed_line :: "string \<Rightarrow> bool" where
  "wellformed_line s =
     (s = [] \<or> is_comment s \<or>
      (case tokens s of [] \<Rightarrow> True | w # ws \<Rightarrow> double_of_token w \<noteq> None))"

definition counted :: "string \<Rightarrow> bool" where
  "counted s = (s \<noteq> [] \<and> \<not> is_comment s \<and> 2 \<le> length (tokens s))"

definition first_time :: "string \<Rightarrow> double" where
  "first_time s =
     (case tokens s of
        [] \<Rightarrow> 0
      | w # ws \<Rightarrow> (case double_of_token w of None \<Rightarrow> 0 | Some t \<Rightarrow> t))"

definition second_token :: "string \<Rightarrow> string" where
  "second_token s = (case tokens s of w1 # w2 # ws \<Rightarrow> w2 | _ \<Rightarrow> [])"

text \<open>
  The target interval of the specification for frame \<open>i\<close> of \<open>N\<close>: the gap to the next
  timestamp if \<open>i\<close> is not the last index, else the gap from the previous timestamp if there
  is one, else 0.
\<close>

definition target_interval :: "double list \<Rightarrow> nat \<Rightarrow> nat \<Rightarrow> real" where
  "target_interval ts N i =
     (if i \<noteq> N - 1 then ts ! (i + 1) - ts ! i
      else if 0 < i then ts ! i - ts ! (i - 1)
      else 0)"

text \<open>
  The frame handed to the engine for an image file: the decoded image when the scale is 1,
  else the decoded image resized to its width and height scaled.
\<close>

definition frame_for :: "env \<Rightarrow> real \<Rightarrow> string \<Rightarrow> Mat" where
  "frame_for e scale fname =
     (if scale = 1 then imread e fname
      else resize e (imread e fname)
             (scaled_size (cols (imread e fname)) scale)
             (scaled_size (rows (imread e fname)) scale))"

text \<open>
  The sleep after frame \<open>i\<close>, when the measured duration is below the target interval, and
  the calls of iteration \<open>i\<close> of a run over \<open>N\<close> entries when the image decodes: the read,
  the tracking call and the sleep.
\<close>

definition pacing_calls :: "env \<Rightarrow> double list \<Rightarrow> nat \<Rightarrow> nat \<Rightarrow> call list" where
  "pacing_calls e ts N i =
     (if ttrack_of e (int i) < target_interval ts N i
      then [Usleep (to_useconds ((target_interval ts N i - ttrack_of e (int i)) * 1000000))]
      else [])"

definition iteration_calls :: "env \<Rightarrow> string list \<Rightarrow> double list \<Rightarrow> real \<Rightarrow> nat \<Rightarrow> nat \<Rightarrow> call list" where
  "iteration_calls e names ts scale N i =
     [Imread (names ! i), TrackMonocular (frame_for e scale (names ! i)) (ts ! i)]
     @ pacing_calls e ts N i"

text \<open>The vector of tracking times after the iterations \<open>ni\<close> to \<open>k - 1\<close>.\<close>

definition record_times :: "env \<Rightarrow> nat \<Rightarrow> nat \<Rightarrow> double list \<Rightarrow> double list" where
  "record_times e ni k v = fold (\<lambda>i u. u[i := ttrack_of e (int i)]) [ni..<k] v"

text \<open>
  The timing samples of a run of \<open>N\<close> iterations, and the summary printed for a sequence of
  samples: its median (the element at index \<open>length div 2\<close> of the sorted sequence) and its
  mean.
\<close>

definition samples :: "env \<Rightarrow> nat \<Rightarrow> double list" where
  "samples e N = map (\<lambda>i. ttrack_of e (int i)) [0..<N]"

definition summary :: "double list \<Rightarrow> item list" where
  "summary xs =
     [Str ''-------'', Endl, Endl,
      Str ''median tracking time: '', Num (sort xs ! (length xs div 2)), Endl,
      Str ''mean tracking time: '', Num (sum_list xs / real (length xs)), Endl]"

text \<open>
  The number of leading entries, among the first \<open>N\<close>, whose image decodes: the number of
  frames the engine tracks. \<open>ending\<close> is what the driver calls after them: the read that
  fails, or shutdown and the two exports.
\<close>

definition tracked :: "env \<Rightarrow> string list \<Rightarrow> nat \<Rightarrow> nat" where
  "tracked e names N = length (takeWhile (\<lambda>f. \<not> Mat_empty (imread e f)) (take N names))"

definition ending :: "string list \<Rightarrow> nat \<Rightarrow> nat \<Rightarrow> call list" where
  "ending names N k =
     (if k < N then [Imread (names ! k)]
      else [Shutdown, SaveKeyFrameTrajectoryTUM ''KeyFrameTrajectory.txt'',
            SaveTrajectoryTUM ''CameraTrajectory.txt''])"

text \<open>The calls that read an image, and the calls that track a frame.\<close>

definition is_imread :: "call \<Rightarrow> bool" where
  "is_imread c = (case c of Imread f \<Rightarrow> True | _ \<Rightarrow> False)"

definition is_track :: "call \<Rightarrow> bool" where
  "is_track c = (case c of TrackMonocular m t \<Rightarrow> True | _ \<Rightarrow> False)"



subsection \<open>An example run\<close>

text \<open>
  A manifest of a comment and two frames, with a trailing token on the second; an
  environment in which both images decode to 7 by 5 pixels, the engine reports the scale
  one half, and tracking takes 0.1 s for the first frame and 1 s afterwards; and the same
  environment with the second image missing.
\<close>

definition ex_manifest :: string where
  "ex_manifest = ''# two frames'' @ [CHR 0x0A] @ ''0.0 a.png'' @ [CHR 0x0A] @ ''0.5 b.png x'' @ [CHR 0x0A]"

definition ex_env :: env where
  "ex_env =
     \<lparr>fs = (\<lambda>p. if p = ''assoc.txt'' then Some ex_manifest else None),
      imread = (\<lambda>f. if f = ''a.png'' \<or> f = ''b.png'' then \<lparr>rows = 5, cols = 7, data = [0]\<rparr>
                     else \<lparr>rows = 0, cols = 0, data = []\<rparr>),
      resize = (\<lambda>m w h. m\<lparr>rows := h, cols := w\<rparr>),
      GetImageScale = 1 / 2,
      ttrack_of = (\<lambda>i. if i = 0 then 1 / 10 else 1)\<rparr>"

definition ex_env_bad :: env where
  "ex_env_bad =
     ex_env\<lparr>imread := (\<lambda>f. if f = ''a.png'' then \<lparr>rows = 5, cols = 7, data = [0]\<rparr>
                           else \<lparr>rows = 0, cols = 0, data = []\<rparr>)\<rparr>"

definition ex_argv :: "string list" where
  "ex_argv = [''mono_aqualoc'', ''ORBvoc.txt'', ''harbor.yaml'', ''assoc.txt'']"



definition scale07_env :: env where
  "scale07_env =
     ex_env\<lparr>imread := (\<lambda>f. \<lparr>rows = 512, cols = 640, data = [0]\<rparr>),
            GetImageScale := 11744051 / 16777216\<rparr>"



section \<open>Properties of the stream operations\<close>

lemma takeWhile_stop: "r = [] \<or> \<not> P (hd r) \<Longrightarrow> takeWhile P (xs @ r) = takeWhile P xs"
  by (induction xs) (auto simp: takeWhile_eq_Nil_iff intro: hd_in_set)

lemma dropWhile_stop: "r = [] \<or> \<not> P (hd r) \<Longrightarrow> dropWhile P (xs @ r) = dropWhile P xs @ r"
  by (induction xs) (auto simp: dropWhile_eq_self_iff)

lemma stopper_Nil [simp]: "stopper []"
  by (simp add: stopper_def)

lemma stopper_digit: "stopper r \<Longrightarrow> r = [] \<or> \<not> isdigit (hd r)"
  by (auto simp: stopper_def isspace_def isdigit_def)

lemma takeWhile_digit_stop: "stopper r \<Longrightarrow> takeWhile isdigit (xs @ r) = takeWhile isdigit xs"
  by (rule takeWhile_stop) (rule stopper_digit)

lemma dropWhile_digit_stop: "stopper r \<Longrightarrow> dropWhile isdigit (xs @ r) = dropWhile isdigit xs @ r"
  by (rule dropWhile_stop) (rule stopper_digit)

lemma scan_sign_stopper: "stopper r \<Longrightarrow> scan_sign r = (False, r)"
  by (cases r) (auto simp: scan_sign_def stopper_def isspace_def)

lemma scan_frac_stopper: "stopper r \<Longrightarrow> scan_frac r = ([], r)"
  by (cases r) (auto simp: scan_frac_def stopper_def isspace_def)

lemma scan_exp_stopper: "stopper r \<Longrightarrow> scan_exp m r = ((False, False, []), r)"
  by (cases r) (auto simp: scan_exp_def stopper_def isspace_def)

lemma scan_sign_stop: "stopper r \<Longrightarrow> scan_sign (w @ r) = (fst (scan_sign w), snd (scan_sign w) @ r)"
  proof (cases w)
  case Nil
  assume "stopper r"
  with Nil show ?thesis by (simp add: scan_sign_stopper)
next
  case (Cons c cs)
  then show ?thesis by (simp add: scan_sign_def)
qed

lemma scan_frac_stop: "stopper r \<Longrightarrow> scan_frac (w @ r) = (fst (scan_frac w), snd (scan_frac w) @ r)"
  proof (cases w)
  case Nil
  assume "stopper r"
  with Nil show ?thesis by (simp add: scan_frac_stopper)
next
  case (Cons c cs)
  assume "stopper r"
  with Cons show ?thesis
    by (simp add: scan_frac_def takeWhile_digit_stop dropWhile_digit_stop)
qed

lemma scan_exp_stop: "stopper r \<Longrightarrow> scan_exp m (w @ r) = (fst (scan_exp m w), snd (scan_exp m w) @ r)"
  proof (cases w)
  case Nil
  assume "stopper r"
  with Nil show ?thesis by (simp add: scan_exp_stopper)
next
  case (Cons c cs)
  assume "stopper r"
  with Cons show ?thesis
    by (simp add: scan_exp_def scan_sign_stop takeWhile_digit_stop dropWhile_digit_stop
        split: prod.splits)
qed

lemma scan_float_stop: "stopper r \<Longrightarrow> scan_float (w @ r) = (fst (scan_float w), snd (scan_float w) @ r)"
  by (simp add: scan_float_def scan_sign_stop scan_frac_stop scan_exp_stop takeWhile_digit_stop dropWhile_digit_stop split: prod.splits)

lemma scan_float_Nil: "scan_float [] = (\<lparr>neg = False, ipart = [], fpart = [], has_exp = False, eneg = False, epart = []\<rparr>, [])"
  by (simp add: scan_float_def scan_sign_def scan_frac_def scan_exp_def)

lemma num_prefix_Nil [simp]: "num_prefix [] = None"
  by (simp add: num_prefix_def scan_float_Nil lit_valid_def)

lemma process_line_eq:
  "process_line s (ns, ts) =
     (if s \<noteq> [] \<and> hd s \<noteq> CHR ''#'' then
        (case num_prefix (dropWhile isspace s) of
           None \<Rightarrow> Some (ns, ts)
         | Some (t, rest) \<Rightarrow>
             (let w = takeWhile (\<lambda>c. \<not> isspace c) (dropWhile isspace rest) in
              if w \<noteq> [] then Some (ns @ [w], ts @ [t]) else Some (ns, ts)))
      else Some (ns, ts))"
proof (cases "dropWhile isspace s = []")
  case True
  then show ?thesis
    by (simp add: process_line_def extract_double_def extract_string_def sentry_def
        sstream_of_def good_def del: dropWhile_eq_Nil_conv)
next
  case False
  obtain l rest where sc: "scan_float (dropWhile isspace s) = (l, rest)"
    by (cases "scan_float (dropWhile isspace s)")
  show ?thesis
  proof (cases "lit_valid l \<and> \<bar>lit_value l\<bar> < DBL_ROUND_INF")
    case ok: True
    show ?thesis
    proof (cases "rest = []")
      case True
      with False sc ok show ?thesis
        by (simp add: process_line_def extract_double_def extract_string_def sentry_def
          sstream_of_def good_def num_prefix_def del: dropWhile_eq_Nil_conv)
    next
      case ne: False
      with False sc ok show ?thesis
        by (simp add: process_line_def extract_double_def extract_string_def sentry_def
          sstream_of_def good_def num_prefix_def Let_def takeWhile_eq_Nil_iff
          del: dropWhile_eq_Nil_conv)
    qed
  next
    case bad: False
    with False sc show ?thesis
      by (auto simp add: process_line_def extract_double_def extract_string_def sentry_def
          sstream_of_def good_def num_prefix_def Let_def simp del: dropWhile_eq_Nil_conv)
  qed
qed

lemma tokens_blank: "dropWhile isspace s = [] \<Longrightarrow> tokens s = []"
  by (subst tokens.simps) (simp del: dropWhile_eq_Nil_conv)

lemma tokens_first:
  "dropWhile isspace s \<noteq> [] \<Longrightarrow>
   tokens s = takeWhile (\<lambda>c. \<not> isspace c) (dropWhile isspace s)
              # tokens (dropWhile (\<lambda>c. \<not> isspace c) (dropWhile isspace s))"
  by (subst tokens.simps) (simp del: dropWhile_eq_Nil_conv add: Let_def)

lemma stopper_after_token: "stopper (dropWhile (\<lambda>c. \<not> isspace c) r)"
  unfolding stopper_def using hd_dropWhile [of "\<lambda>c. \<not> isspace c" r] by blast

lemma token_nonempty:
  "dropWhile isspace s \<noteq> [] \<Longrightarrow> takeWhile (\<lambda>c. \<not> isspace c) (dropWhile isspace s) \<noteq> []"
  using hd_dropWhile [of isspace s] by (cases "dropWhile isspace s") auto

lemma num_prefix_stop:
  "stopper r \<Longrightarrow>
   num_prefix (w @ r) = (case num_prefix w of None \<Rightarrow> None | Some (t, rest) \<Rightarrow> Some (t, rest @ r))"
  by (simp add: num_prefix_def scan_float_stop split: prod.splits)

lemma num_prefix_line:
  "num_prefix (dropWhile isspace s) =
     (case num_prefix (takeWhile (\<lambda>c. \<not> isspace c) (dropWhile isspace s)) of
        None \<Rightarrow> None
      | Some (t, rest) \<Rightarrow> Some (t, rest @ dropWhile (\<lambda>c. \<not> isspace c) (dropWhile isspace s)))"
  using num_prefix_stop [OF stopper_after_token,
      of "takeWhile (\<lambda>c. \<not> isspace c) (dropWhile isspace s)" "dropWhile isspace s"]
  by simp

lemma dropWhile_space_token:
  "dropWhile isspace (takeWhile (\<lambda>c. \<not> isspace c) r) = takeWhile (\<lambda>c. \<not> isspace c) r"
  by (cases r) auto

lemma parse_double_token:
  "parse_double (takeWhile (\<lambda>c. \<not> isspace c) r) =
     (case num_prefix (takeWhile (\<lambda>c. \<not> isspace c) r) of
        None \<Rightarrow> None
      | Some (t, rest) \<Rightarrow> if rest = [] then Some t else None)"
proof (cases "takeWhile (\<lambda>c. \<not> isspace c) r = []")
  case True
  then show ?thesis
    by (simp add: parse_double_def extract_double_def sentry_def sstream_of_def good_def)
next
  case False
  then show ?thesis
    by (auto simp add: parse_double_def extract_double_def sentry_def sstream_of_def good_def
        dropWhile_space_token num_prefix_def Let_def split: prod.splits)
qed

section \<open>Properties of LoadImages\<close>

lemma read_loop_eq: "read_loop cs v = after_lines (file_lines cs) v"
proof (induction cs v rule: read_loop.induct)
  case (1 cs v)
  show ?case
  proof (cases "getline cs")
    case (Pair s rest)
    show ?thesis
    proof (cases "process_line s v")
      case None
      with Pair show ?thesis
        by (subst read_loop.simps, subst file_lines.simps) (simp split: option.splits)
    next
      case (Some v')
      show ?thesis
      proof (cases rest)
        case None
        with Pair Some show ?thesis
          by (subst read_loop.simps, subst file_lines.simps) simp
      next
        case (Some cs')
        have "read_loop cs' v' = after_lines (file_lines cs') v'"
          using "1.IH" Pair \<open>process_line s v = Some v'\<close> Some by simp
        with Pair \<open>process_line s v = Some v'\<close> Some show ?thesis
          by (subst read_loop.simps, subst file_lines.simps) simp
      qed
    qed
  qed
qed

lemma process_line_total:
  "\<exists>ns' ts'. process_line s (ns, ts) = Some (ns', ts') \<and>
     ((ns' = ns \<and> ts' = ts) \<or> (\<exists>p t. ns' = ns @ [p] \<and> ts' = ts @ [t]))"
  by (auto simp: process_line_eq Let_def split: option.splits)

lemma after_lines_lengths:
  "length ns = length ts \<Longrightarrow>
   \<exists>ns' ts'. after_lines ls (ns, ts) = Some (ns', ts') \<and> length ns' = length ts'"
proof (induction ls arbitrary: ns ts)
  case Nil
  then show ?case by simp
next
  case (Cons s ls)
  from process_line_total [of s ns ts] obtain ns1 ts1
    where st: "process_line s (ns, ts) = Some (ns1, ts1)"
      and sh: "(ns1 = ns \<and> ts1 = ts) \<or> (\<exists>p t. ns1 = ns @ [p] \<and> ts1 = ts @ [t])"
    by blast
  from sh Cons.prems have "length ns1 = length ts1" by auto
  from Cons.IH [OF this] st show ?case by simp
qed

lemmas stream_defs = process_line_def extract_double_def extract_string_def sentry_def
  sstream_of_def good_def scan_float_def scan_sign_def scan_frac_def scan_exp_def
  isdigit_def isspace_def lit_valid_def lit_value_def digits_val_def digit_of_def
  DBL_ROUND_INF_def

lemma num_prefix_hash:
  assumes "r \<noteq> []" "hd r = CHR ''#''"
  shows "num_prefix r = None"
proof -
  from assms obtain r' where r: "r = CHR ''#'' # r'" by (cases r) auto
  show ?thesis
    by (simp add: r num_prefix_def scan_float_def scan_sign_def scan_frac_def scan_exp_def
        isdigit_def lit_valid_def)
qed

lemma after_lines_append:
  "after_lines (ls1 @ ls2) v =
     (case after_lines ls1 v of None \<Rightarrow> None | Some v' \<Rightarrow> after_lines ls2 v')"
  by (induction ls1 arbitrary: v) (auto split: option.splits)

lemma LoadImages_opened:
  "files path = Some content \<Longrightarrow>
   LoadImages files path v =
     (case after_lines (file_lines content) v of None \<Rightarrow> None | Some v' \<Rightarrow> Some (v', []))"
  by (simp add: LoadImages_def read_loop_eq)






subsection \<open>Floating-point literals and the numeric scan\<close>

lemma index_less: "length (takeWhile (\<lambda>d. d \<noteq> c) xs) < length xs \<longleftrightarrow> c \<in> set xs"
  by (induction xs) auto

lemma digit_iff: "is_decimal_digit c \<longleftrightarrow> isdigit c"
proof -
  have l: "length ''0123456789'' = 10" by simp
  show ?thesis
    unfolding is_decimal_digit_def digit_value_def isdigit_def
    using index_less [of c "''0123456789''"] unfolding l .
qed

lemma digit_index:
  assumes "isdigit c"
  shows "digit_value c = digit_of c"
proof -
  from assms have "c = CHR ''0'' \<or> c = CHR ''1'' \<or> c = CHR ''2'' \<or> c = CHR ''3''
      \<or> c = CHR ''4'' \<or> c = CHR ''5'' \<or> c = CHR ''6'' \<or> c = CHR ''7''
      \<or> c = CHR ''8'' \<or> c = CHR ''9''"
    by (simp add: isdigit_def)
  then show ?thesis
    by (elim disjE) (simp_all add: digit_of_def digit_value_def)
qed

lemmas literal_defs = double_of_token_def float_literal_def split_at_def unsigned_def
  negative_def is_decimal_digit_def digit_value_def

lemma foldl_decimal:
  "list_all isdigit ds \<Longrightarrow>
   foldl (\<lambda>a c. 10 * a + digit_of c) a ds = a * 10 ^ length ds + decimal ds"
  by (induction ds arbitrary: a) (simp_all add: digit_index algebra_simps)

lemma digits_val_decimal: "list_all isdigit ds \<Longrightarrow> digits_val ds = decimal ds"
  by (simp add: digits_val_def foldl_decimal)

lemma scan_sign_split: "scan_sign w = (negative w, unsigned w)"
  by (cases w) (auto simp: scan_sign_def negative_def unsigned_def)

lemma split_at_None:
  "split_at P s = (a, None) \<Longrightarrow> a = s \<and> list_all (\<lambda>c. \<not> P c) s"
  by (auto simp: split_at_def list_all_iff split: list.splits)

lemma split_at_Some:
  assumes "split_at P s = (a, Some r)"
  shows "\<exists>c. P c \<and> s = a @ c # r"
proof -
  from assms obtain c where d: "dropWhile (\<lambda>c. \<not> P c) s = c # r"
    and a: "a = takeWhile (\<lambda>c. \<not> P c) s"
    by (auto simp: split_at_def split: list.splits)
  from d have "P c" using hd_dropWhile [of "\<lambda>c. \<not> P c" s] by auto
  moreover have "s = a @ c # r"
    using takeWhile_dropWhile_id [of "\<lambda>c. \<not> P c" s] by (simp add: a d)
  ultimately show ?thesis by blast
qed

lemma digits_then:
  assumes "list_all isdigit a" "t = [] \<or> \<not> isdigit (hd t)"
  shows "takeWhile isdigit (a @ t) = a" "dropWhile isdigit (a @ t) = t"
  using assms by (induction a) (auto simp: takeWhile_eq_Nil_iff dropWhile_eq_self_iff)

lemma all_digits: "list_all isdigit a \<Longrightarrow> takeWhile isdigit a = a \<and> dropWhile isdigit a = []"
  using digits_then [of a "[]"] by simp

text \<open>
  On a floating-point literal the scan of \<open>num_get\<close> reads every character, the literal
  it builds is one \<open>strtod\<close> accepts, and its value is the value of the literal.
\<close>

lemma float_literal_scan:
  assumes fl: "float_literal w = Some v"
  shows "\<exists>l. scan_float w = (l, []) \<and> lit_valid l \<and> lit_value l = v"
proof -
  obtain mant ex where sp1: "split_at (\<lambda>c. c = CHR ''e'' \<or> c = CHR ''E'') (unsigned w) = (mant, ex)"
    by (cases "split_at (\<lambda>c. c = CHR ''e'' \<or> c = CHR ''E'') (unsigned w)")
  obtain ip fp where sp2: "split_at (\<lambda>c. c = CHR ''.'') mant = (ip, fp)"
    by (cases "split_at (\<lambda>c. c = CHR ''.'') mant")
  define fd where "fd = (case fp of None \<Rightarrow> [] | Some f \<Rightarrow> f)"
  define xd where "xd = (case ex of None \<Rightarrow> [] | Some x \<Rightarrow> unsigned x)"
  define xneg where "xneg = (case ex of None \<Rightarrow> False | Some x \<Rightarrow> negative x)"
  from fl have cond: "list_all isdigit ip" "list_all isdigit fd" "ip @ fd \<noteq> []"
      "list_all isdigit xd" "ex \<noteq> None \<longrightarrow> xd \<noteq> []"
    and v: "v = (if negative w then - 1 else 1)
              * (real (decimal ip) + real (decimal fd) / 10 ^ length fd)
              * (case ex of None \<Rightarrow> 1
                 | Some x \<Rightarrow> if negative x then 1 / 10 ^ decimal (unsigned x)
                            else 10 ^ decimal (unsigned x))"
    by (auto simp add: float_literal_def sp1 sp2 fd_def xd_def Let_def
        digit_iff [abs_def] split: if_splits option.splits)
  define ftail where "ftail = (case fp of None \<Rightarrow> [] | Some f \<Rightarrow> CHR ''.'' # f)"
  have m: "mant = ip @ ftail"
  proof (cases fp)
    case None
    with sp2 split_at_None [of "\<lambda>c. c = CHR ''.''" mant ip] show ?thesis by (simp add: ftail_def)
  next
    case (Some f)
    with sp2 split_at_Some [of "\<lambda>c. c = CHR ''.''" mant ip f] show ?thesis
      by (auto simp: ftail_def)
  qed
  have ft: "(ftail = [] \<and> fd = []) \<or> ftail = CHR ''.'' # fd"
    by (cases fp) (simp_all add: ftail_def fd_def)
  obtain etail where u: "unsigned w = mant @ etail"
    and et: "(etail = [] \<and> ex = None)
       \<or> (\<exists>c x. (c = CHR ''e'' \<or> c = CHR ''E'') \<and> etail = c # x \<and> ex = Some x)"
  proof (cases ex)
    case None
    with sp1 split_at_None [of "\<lambda>c. c = CHR ''e'' \<or> c = CHR ''E''" "unsigned w" mant]
    have "unsigned w = mant @ []" by simp
    with None show ?thesis by (intro that [of "[]"]) auto
  next
    case (Some x)
    with sp1 split_at_Some [of "\<lambda>c. c = CHR ''e'' \<or> c = CHR ''E''" "unsigned w" mant x]
    obtain c where "c = CHR ''e'' \<or> c = CHR ''E''" "unsigned w = mant @ c # x" by auto
    with Some show ?thesis by (intro that [of "c # x"]) auto
  qed
  have estop: "etail = [] \<or> \<not> isdigit (hd etail)"
    using et by (auto simp: isdigit_def)
  have fstop: "ftail @ etail = [] \<or> \<not> isdigit (hd (ftail @ etail))"
    using ft estop by (auto simp: isdigit_def)
  have tw: "takeWhile isdigit (unsigned w) = ip" and dw: "dropWhile isdigit (unsigned w) = ftail @ etail"
    using digits_then [OF cond(1) fstop] by (simp_all add: u m)
  have sf: "scan_frac (ftail @ etail) = (fd, etail)"
  proof (cases "ftail = []")
    case True
    with ft have "fd = []" by auto
    with True et show ?thesis by (auto simp: scan_frac_def)
  next
    case False
    with ft have "ftail = CHR ''.'' # fd" by simp
    with digits_then [OF cond(2) estop] show ?thesis by (simp add: scan_frac_def)
  qed
  have se: "scan_exp True etail = ((ex \<noteq> None, xneg, xd), [])"
  proof (cases ex)
    case None
    with et show ?thesis by (auto simp: scan_exp_def xneg_def xd_def)
  next
    case (Some x)
    with et obtain c where c: "c = CHR ''e'' \<or> c = CHR ''E''" "etail = c # x" by auto
    from cond(4) Some have "list_all isdigit (unsigned x)" by (simp add: xd_def)
    from all_digits [OF this] c Some show ?thesis
      by (auto simp: scan_exp_def scan_sign_split xneg_def xd_def)
  qed
  let ?l = "\<lparr>neg = negative w, ipart = ip, fpart = fd,
             has_exp = (ex \<noteq> None), eneg = xneg, epart = xd\<rparr>"
  have "scan_float w = (?l, [])"
    using cond(3) by (simp add: scan_float_def scan_sign_split dw sf tw se)
  moreover have "lit_valid ?l" using cond by (simp add: lit_valid_def)
  moreover have "lit_value ?l = v"
    using cond by (cases ex) (simp_all add: lit_value_def v digits_val_decimal xneg_def xd_def)
  ultimately show ?thesis by blast
qed

lemma double_of_token_num_prefix:
  assumes "double_of_token w = Some v"
  shows "num_prefix w = Some (v, [])"
proof -
  from assms have fl: "float_literal w = Some v" and r: "\<bar>v\<bar> < 2 ^ 1024 - 2 ^ 970"
    by (auto simp: double_of_token_def split: option.splits if_splits)
  from float_literal_scan [OF fl] obtain l where "scan_float w = (l, [])" "lit_valid l"
    "lit_value l = v" by blast
  moreover have "\<bar>v\<bar> < DBL_ROUND_INF" using r by (simp add: DBL_ROUND_INF_def)
  ultimately show ?thesis by (simp add: num_prefix_def)
qed

subsection \<open>Lines that are comments, well formed, or without an entry\<close>

lemma process_line_comment:
  assumes "s = [] \<or> (dropWhile isspace s \<noteq> [] \<and> hd (dropWhile isspace s) = CHR ''#'')"
  shows "process_line s v = Some v"
proof (cases "s = []")
  case True
  then show ?thesis by (cases v) (simp add: process_line_eq)
next
  case False
  with assms have "num_prefix (dropWhile isspace s) = None"
    by (simp add: num_prefix_hash del: dropWhile_eq_Nil_conv)
  then show ?thesis by (cases v) (simp add: process_line_eq)
qed

lemma not_comment_guard: "s \<noteq> [] \<Longrightarrow> \<not> is_comment s \<Longrightarrow> hd s \<noteq> CHR ''#''"
  by (cases s) (auto simp: is_comment_def isspace_def)


lemma process_line_wf:
  assumes wf: "wellformed_line s"
  shows "process_line s (ns, ts) =
     Some (if counted s then (ns @ [second_token s], ts @ [first_time s]) else (ns, ts))"
proof (cases "s = [] \<or> is_comment s")
  case True
  then have "process_line s (ns, ts) = Some (ns, ts)"
    using process_line_comment [of s "(ns, ts)"] by (simp add: is_comment_def)
  moreover from True have "\<not> counted s" by (auto simp: counted_def)
  ultimately show ?thesis by simp
next
  case nc: False
  then have guard: "s \<noteq> [] \<and> hd s \<noteq> CHR ''#''" using not_comment_guard [of s] by blast
  show ?thesis
  proof (cases "dropWhile isspace s = []")
    case True
    with guard show ?thesis
      by (simp add: process_line_eq counted_def tokens_blank del: dropWhile_eq_Nil_conv)
  next
    case ne: False
    define w1 where "w1 = takeWhile (\<lambda>c. \<not> isspace c) (dropWhile isspace s)"
    define r' where "r' = dropWhile (\<lambda>c. \<not> isspace c) (dropWhile isspace s)"
    have tk: "tokens s = w1 # tokens r'"
      using ne by (simp add: tokens_first w1_def r'_def del: dropWhile_eq_Nil_conv)
    from wf nc tk obtain t where pd: "double_of_token w1 = Some t"
      by (auto simp: wellformed_line_def)
    then have np: "num_prefix w1 = Some (t, [])" by (rule double_of_token_num_prefix)
    have npl: "num_prefix (dropWhile isspace s) = Some (t, r')"
      using np by (simp add: num_prefix_line [of s] w1_def [symmetric] r'_def [symmetric])
    show ?thesis
    proof (cases "dropWhile isspace r' = []")
      case True
      then have "tokens r' = []" by (rule tokens_blank)
      with guard tk npl True show ?thesis
        by (simp add: process_line_eq counted_def del: dropWhile_eq_Nil_conv)
    next
      case False
      then have tk2: "tokens r' = takeWhile (\<lambda>c. \<not> isspace c) (dropWhile isspace r')
            # tokens (dropWhile (\<lambda>c. \<not> isspace c) (dropWhile isspace r'))"
        by (rule tokens_first)
      from False have "takeWhile (\<lambda>c. \<not> isspace c) (dropWhile isspace r') \<noteq> []"
        by (rule token_nonempty)
      with guard nc tk tk2 npl pd show ?thesis
        by (simp add: process_line_eq counted_def second_token_def first_time_def Let_def
            del: dropWhile_eq_Nil_conv)
    qed
  qed
qed

lemma after_lines_wf:
  "\<forall>s \<in> set ls. wellformed_line s \<Longrightarrow>
   after_lines ls (ns, ts) =
     Some (ns @ map second_token (filter counted ls), ts @ map first_time (filter counted ls))"
  by (induction ls arbitrary: ns ts) (simp_all add: process_line_wf)



section \<open>Properties of main\<close>

lemma LoadImages_lengths:
  assumes "LoadImages files path ([], []) = Some ((ns, ts), msgs)"
  shows "length ns = length ts"
proof (cases "files path")
  case None
  with assms show ?thesis by (simp add: LoadImages_def)
next
  case (Some content)
  from after_lines_lengths [of "[]" "[]" "file_lines content"]
  obtain ns' ts' where "after_lines (file_lines content) ([], []) = Some (ns', ts')"
    and "length ns' = length ts'" by auto
  with Some assms show ?thesis by (simp add: LoadImages_opened)
qed

lemma does_does [simp]: "does b (does a w) = does (a @ b) w"
  by (simp add: does_def)

lemma does_Nil [simp]: "does [] w = w"
  by (simp add: does_def)

lemma length_record_times [simp]: "length (record_times e ni k v) = length v"
  unfolding record_times_def by (induction k) simp_all

lemma record_times_same [simp]: "record_times e ni ni v = v"
  by (simp add: record_times_def)

lemma record_times_Suc:
  "ni \<le> n \<Longrightarrow> record_times e ni (Suc n) v = (record_times e ni n v)[n := ttrack_of e (int n)]"
  by (simp add: record_times_def)

lemma main_loop_step:
  assumes "length names = length ts" "N \<le> length names" "length v = N" "n < N"
    and "\<not> Mat_empty (imread e (names ! n))"
  shows "main_loop e names ts (int N) scale (int n) v w =
         main_loop e names ts (int N) scale (int (Suc n)) (v[n := ttrack_of e (int n)])
           (does (iteration_calls e names ts scale N n) w)"
proof -
  have T: "pacing_T ts (int N) (int n) (ts ! n) = Some (target_interval ts N n)"
    using assms(1-4)
    by (auto simp: pacing_T_def target_interval_def vec_at_def nat_add_distrib nat_diff_distrib)
  show ?thesis
    using assms
    by (subst main_loop.simps)
       (simp add: vec_at_def vec_put_def T iteration_calls_def pacing_calls_def frame_for_def
          add.commute)
qed

lemma main_loop_unroll:
  assumes len: "length names = length ts" "N \<le> length names" "length v = N"
    and nk: "ni \<le> k" and kN: "k \<le> N"
    and good: "\<forall>i. ni \<le> i \<and> i < k \<longrightarrow> \<not> Mat_empty (imread e (names ! i))"
  shows "main_loop e names ts (int N) scale (int ni) v w =
         main_loop e names ts (int N) scale (int k) (record_times e ni k v)
           (does (concat (map (iteration_calls e names ts scale N) [ni..<k])) w)"
  using nk kN good
proof (induction k rule: dec_induct)
  case base
  show ?case by simp
next
  case (step n)
  have "main_loop e names ts (int N) scale (int ni) v w =
        main_loop e names ts (int N) scale (int n) (record_times e ni n v)
          (does (concat (map (iteration_calls e names ts scale N) [ni..<n])) w)"
    using step by simp
  also have "\<dots> = main_loop e names ts (int N) scale (int (Suc n))
          ((record_times e ni n v)[n := ttrack_of e (int n)])
          (does (iteration_calls e names ts scale N n)
             (does (concat (map (iteration_calls e names ts scale N) [ni..<n])) w))"
    using step len by (intro main_loop_step) auto
  finally show ?case
    using step(1) by (simp add: record_times_Suc)
qed

lemma main_loop_end: "main_loop e names ts (int N) scale (int N) v w = Some (Inr v, w)"
  by (subst main_loop.simps) simp

lemma main_loop_bad:
  assumes "length names = length ts" "N \<le> length names" "k < N"
    and "Mat_empty (imread e (names ! k))"
  shows "main_loop e names ts (int N) scale (int k) v w =
         Some (Inl 1, to_cerr [Endl, Str ''Failed to load image at: '', Str (names ! k), Endl]
                        (does [Imread (names ! k)] w))"
  using assms by (subst main_loop.simps) (simp add: vec_at_def)

lemma record_times_all:
  "k \<le> length v \<Longrightarrow>
   record_times e 0 k v = map (\<lambda>i. ttrack_of e (int i)) [0..<k] @ drop k v"
proof (induction k)
  case 0
  then show ?case by simp
next
  case (Suc k)
  then have "k < length v" by simp
  then have "drop k v = v ! k # drop (Suc k) v" by (simp add: Cons_nth_drop_Suc)
  with Suc show ?case
    by (simp add: record_times_Suc list_update_append)
qed

lemma sum_loop_eq:
  "n \<le> length v \<Longrightarrow>
   sum_loop v (int (length v)) (int n) acc = Some (acc + sum_list (drop n v))"
proof (induction "length v - n" arbitrary: n acc)
  case 0
  then show ?case by (subst sum_loop.simps) simp
next
  case (Suc d)
  then have lt: "n < length v" by simp
  then have dr: "drop n v = v ! n # drop (Suc n) v" by (simp add: Cons_nth_drop_Suc)
  have "sum_loop v (int (length v)) (int n) acc =
        sum_loop v (int (length v)) (int (Suc n)) (acc + v ! n)"
    using lt by (subst sum_loop.simps) (simp add: vec_at_def add.commute)
  also have "\<dots> = Some (acc + v ! n + sum_list (drop (Suc n) v))"
    using Suc lt by (intro Suc.hyps(1)) auto
  finally show ?case by (simp add: dr)
qed

lemma sum_list_insort: "sum_list (insort x xs) = x + sum_list (xs :: real list)"
  by (induction xs) auto

lemma sum_list_sort: "sum_list (sort v) = sum_list (v :: real list)"
  by (induction v) (simp_all add: sum_list_insort)

lemma c_div_half: "0 \<le> n \<Longrightarrow> c_div n 2 = n div 2"
  by (cases "n = 0") (simp_all add: c_div_def)

lemma statistics_eq:
  assumes "v \<noteq> []"
  shows "statistics v (int (length v)) w = Some (to_cout (summary v) w)"
proof -
  have s: "sum_loop (sort v) (int (length v)) 0 0 = Some (sum_list v)"
    using sum_loop_eq [of 0 "sort v" 0] by (simp add: sum_list_sort)
  have "length v div 2 < length v" using assms by simp
  then have m: "vec_at (sort v) (c_div (int (length v)) 2) = Some (sort v ! (length v div 2))"
    by (simp add: c_div_half vec_at_def zdiv_int [symmetric] nat_div_distrib)
  show ?thesis by (simp add: statistics_def s m summary_def)
qed

lemma size_to_int_eq: "size_to_int n = signed_take_bit 31 (int n)"
proof -
  have "size_to_int n = sint (word_of_int (int n) :: 32 word)"
    by (simp add: size_to_int_def)
  then show ?thesis by (simp only: sint_sbintrunc') simp
qed

lemma size_to_int_le: "size_to_int n \<le> int n"
  by (simp add: size_to_int_eq signed_take_bit_int_less_eq_self_iff)

lemma size_to_int_small: "n < 2 ^ 31 \<Longrightarrow> size_to_int n = int n"
  by (simp add: size_to_int_eq signed_take_bit_int_eq_self)


lemma tracked_le: "N \<le> length names \<Longrightarrow> tracked e names N \<le> N"
  unfolding tracked_def
  using length_takeWhile_le [of "\<lambda>f. \<not> Mat_empty (imread e f)" "take N names"] by simp

lemma tracked_good:
  assumes "i < tracked e names N"
  shows "\<not> Mat_empty (imread e (names ! i))"
proof -
  let ?P = "\<lambda>f. \<not> Mat_empty (imread e f)"
  from assms have i: "i < length (takeWhile ?P (take N names))" by (simp add: tracked_def)
  then have "takeWhile ?P (take N names) ! i \<in> set (takeWhile ?P (take N names))"
    by (rule nth_mem)
  then have "?P (takeWhile ?P (take N names) ! i)" by (rule set_takeWhileD [THEN conjunct2])
  moreover have "takeWhile ?P (take N names) ! i = take N names ! i"
    using i by (rule takeWhile_nth)
  moreover have "i < N"
    using i length_takeWhile_le [of ?P "take N names"] by simp
  ultimately show ?thesis by simp
qed

lemma tracked_bad:
  assumes "N \<le> length names" "tracked e names N < N"
  shows "Mat_empty (imread e (names ! tracked e names N))"
proof -
  let ?P = "\<lambda>f. \<not> Mat_empty (imread e f)"
  from assms have "length (takeWhile ?P (take N names)) < length (take N names)"
    by (simp add: tracked_def)
  then have "\<not> ?P (take N names ! length (takeWhile ?P (take N names)))"
    by (rule nth_length_takeWhile)
  with assms show ?thesis by (simp add: tracked_def)
qed

lemma tracked_first_bad:
  assumes "i < N" "N \<le> length names" "Mat_empty (imread e (names ! i))"
    and "\<forall>j < i. \<not> Mat_empty (imread e (names ! j))"
  shows "tracked e names N = i"
proof -
  have "\<not> i < tracked e names N" using assms(3) tracked_good by blast
  moreover have "\<not> tracked e names N < i"
    using tracked_bad [of N names e] assms by auto
  ultimately show ?thesis by simp
qed

lemma tracked_all_good:
  assumes "N \<le> length names" "\<forall>j < N. \<not> Mat_empty (imread e (names ! j))"
  shows "tracked e names N = N"
proof (rule ccontr)
  assume "tracked e names N \<noteq> N"
  with tracked_le [OF assms(1), of e] have lt: "tracked e names N < N" by simp
  from tracked_bad [OF assms(1) lt] assms(2) lt show False by blast
qed

lemma main_trace:
  assumes loaded: "LoadImages (fs e) a3 ([], []) = Some ((names, ts), msgs)"
    and pos: "0 < size_to_int (length names)"
    and N: "N = nat (size_to_int (length names))"
    and k: "k = tracked e names N"
  shows "main e [a0, a1, a2, a3] =
     Some (if k < N then 1 else 0,
           \<lparr>cout = banner (int N) @ (if k < N then [] else summary (samples e N)),
            cerr = msgs @ (if k < N
                     then [Endl, Str ''Failed to load image at: '', Str (names ! k), Endl]
                     else []),
            calls = System_ctor a1 a2
                    # concat (map (iteration_calls e names ts (GetImageScale e) N) [0..<k])
                    @ ending names N k\<rparr>)"
proof -
  from loaded have len: "length names = length ts" by (rule LoadImages_lengths)
  have NN: "int N = size_to_int (length names)" using pos N by simp
  have Nle: "N \<le> length names" using size_to_int_le [of "length names"] N by linarith
  have Npos: "0 < N" using pos N by simp
  have kN: "k \<le> N" using k Nle by (simp add: tracked_le)
  let ?v0 = "replicate N (0 :: real)"
  let ?w0 = "does [System_ctor a1 a2] (to_cout (banner (int N)) (to_cerr msgs \<lparr>cout = [], cerr = [], calls = []\<rparr>))"
  have unroll: "main_loop e names ts (int N) (GetImageScale e) (int 0) ?v0 ?w0 =
      main_loop e names ts (int N) (GetImageScale e) (int k) (record_times e 0 k ?v0)
        (does (concat (map (iteration_calls e names ts (GetImageScale e) N) [0..<k])) ?w0)"
    using len Nle kN k by (intro main_loop_unroll) (auto dest: tracked_good)
  show ?thesis
  proof (cases "k < N")
    case True
    then have "Mat_empty (imread e (names ! k))" using k Nle tracked_bad by blast
    with True len Nle
    have "main_loop e names ts (int N) (GetImageScale e) (int 0) ?v0 ?w0 =
      Some (Inl 1, to_cerr [Endl, Str ''Failed to load image at: '', Str (names ! k), Endl]
        (does [Imread (names ! k)]
          (does (concat (map (iteration_calls e names ts (GetImageScale e) N) [0..<k])) ?w0)))"
      by (simp only: unroll main_loop_bad)
    with True loaded pos show ?thesis
      by (simp add: main_def NN [symmetric] N [symmetric] ending_def to_cerr_def to_cout_def does_def)
  next
    case False
    with kN have kk: "k = N" by simp
    have rt: "record_times e 0 N ?v0 = samples e N"
      by (simp add: record_times_all samples_def)
    have ne: "samples e N \<noteq> []" using Npos by (simp add: samples_def)
    have ls: "length (samples e N) = N" by (simp add: samples_def)
    have "main_loop e names ts (int N) (GetImageScale e) (int 0) ?v0 ?w0 =
      Some (Inr (samples e N),
          (does (concat (map (iteration_calls e names ts (GetImageScale e) N) [0..<N])) ?w0))"
      using unroll by (simp only: kk main_loop_end rt)
    moreover have "statistics (samples e N) (int N) w = Some (to_cout (summary (samples e N)) w)" for w
      using statistics_eq [OF ne, of w] by (simp only: ls)
    ultimately show ?thesis
      using loaded pos kk
      by (simp add: main_def NN [symmetric] N [symmetric] ending_def to_cerr_def to_cout_def does_def)
  qed
qed

lemma main_usage:
  "length argv \<noteq> 4 \<Longrightarrow>
   main e argv = Some (1, to_cerr usage \<lparr>cout = [], cerr = [], calls = []\<rparr>)"
  by (auto simp: main_def split: list.splits)

lemma argv4: "length argv = 4 \<Longrightarrow> \<exists>a0 a1 a2 a3. argv = [a0, a1, a2, a3]"
  by (auto simp: length_Suc_conv eval_nat_numeral)

lemma LoadImages_total:
  "\<exists>ns ts msgs. LoadImages files path ([], []) = Some ((ns, ts), msgs)"
proof (cases "files path")
  case None
  then show ?thesis by (simp add: LoadImages_def)
next
  case (Some content)
  from after_lines_lengths [of "[]" "[]" "file_lines content"]
  obtain ns' ts' where "after_lines (file_lines content) ([], []) = Some (ns', ts')" by auto
  with Some show ?thesis by (simp add: LoadImages_opened)
qed

lemma main_empty:
  assumes "LoadImages (fs e) a3 ([], []) = Some ((names, ts), msgs)"
    and "size_to_int (length names) \<le> 0"
  shows "main e [a0, a1, a2, a3] =
     Some (1, \<lparr>cout = [],
               cerr = msgs @ [Str ''ERROR: No images found in association file.'', Endl],
               calls = []\<rparr>)"
  using assms by (simp add: main_def to_cerr_def)

lemma main_total: "\<exists>c w. main e argv = Some (c, w)"
proof (cases "length argv = 4")
  case False
  then show ?thesis by (simp add: main_usage)
next
  case True
  then obtain a0 a1 a2 a3 where a: "argv = [a0, a1, a2, a3]" using argv4 by blast
  obtain names ts msgs where l: "LoadImages (fs e) a3 ([], []) = Some ((names, ts), msgs)"
    using LoadImages_total by blast
  show ?thesis
  proof (cases "size_to_int (length names) \<le> 0")
    case True
    with l a show ?thesis by (simp add: main_empty)
  next
    case False
    then have "0 < size_to_int (length names)" by simp
    from main_trace [OF l this refl refl, of a0 a1 a2] a show ?thesis by simp
  qed
qed

lemma no_shutdown_iteration: "Shutdown \<notin> set (iteration_calls e names ts sc N i)"
  by (simp add: iteration_calls_def pacing_calls_def)

lemma filter_track_iterations:
  "filter is_track (concat (map (iteration_calls e names ts sc N) [0..<k]))
   = map (\<lambda>i. TrackMonocular (frame_for e sc (names ! i)) (ts ! i)) [0..<k]"
  by (induction k) (simp_all add: iteration_calls_def pacing_calls_def is_track_def)

lemma filter_imread_iterations:
  "filter is_imread (concat (map (iteration_calls e names ts sc N) [0..<k]))
   = map (\<lambda>i. Imread (names ! i)) [0..<k]"
  by (induction k) (simp_all add: iteration_calls_def pacing_calls_def is_imread_def)


lemma toward_zero_half: "toward_zero (of_int n * (1 / 2)) = c_div n 2"
proof (cases "0 \<le> n")
  case True
  then show ?thesis
    by (simp add: toward_zero_def c_div_half floor_divide_of_int_eq [of n 2, simplified])
next
  case False
  then have n: "n < 0" by simp
  have "\<lceil>real_of_int n / 2\<rceil> = - \<lfloor>real_of_int (- n) / 2\<rfloor>" by (simp add: ceiling_def)
  also have "\<dots> = - ((- n) div 2)"
    using floor_divide_of_int_eq [of "- n" 2] by simp
  finally show ?thesis using n by (simp add: toward_zero_def c_div_def)
qed

lemma ilog2_lower:
  assumes "0 < a"
  shows "2 powi ilog2 a \<le> a"
proof (cases "1 \<le> a")
  case True
  then have pos: "0 < \<lfloor>a\<rfloor>" by linarith
  from bitlen_bounds [OF pos] have "2 ^ nat (bitlen \<lfloor>a\<rfloor> - 1) \<le> \<lfloor>a\<rfloor>" by simp
  then have "(2 :: real) ^ nat (bitlen \<lfloor>a\<rfloor> - 1) \<le> of_int \<lfloor>a\<rfloor>"
    by (metis of_int_le_iff of_int_numeral of_int_power)
  also have "\<dots> \<le> a" by simp
  finally have le: "(2 :: real) ^ nat (bitlen \<lfloor>a\<rfloor> - 1) \<le> a" .
  have "0 \<le> bitlen \<lfloor>a\<rfloor> - 1" using bitlen_bounds [OF pos] pos
    by (smt (verit) bitlen_nonneg bitlen_eq_zero_iff)
  then show ?thesis using le True by (simp add: ilog2_def power_int_def)
next
  case False
  with assms have a1: "a < 1" by simp
  then have q: "1 < 1 / a" using assms by simp
  let ?m = "\<lceil>1 / a\<rceil> - 1"
  have mpos: "0 < ?m" using q by linarith
  have "1 / a \<le> of_int ?m + 1" by simp
  also have "of_int ?m + 1 \<le> (2 :: real) ^ nat (bitlen ?m)"
  proof -
    from bitlen_bounds [OF mpos] have "?m + 1 \<le> 2 ^ nat (bitlen ?m)" by simp
    then have "of_int (?m + 1) \<le> (of_int (2 ^ nat (bitlen ?m)) :: real)"
      by (simp only: of_int_le_iff)
    then show ?thesis by simp
  qed
  finally have "1 / a \<le> 2 ^ nat (bitlen ?m)" .
  then have "1 / 2 ^ nat (bitlen ?m) \<le> a"
    using assms by (simp add: field_simps)
  moreover have "0 \<le> bitlen ?m" by (rule bitlen_nonneg)
  ultimately show ?thesis using False
    by (simp add: ilog2_def power_int_minus power_int_nonneg_exp field_simps)
qed

lemma round_even_int [simp]: "round_even (of_int j) = j"
  by (simp add: round_even_def)

lemma binary32_exact:
  assumes x: "x = of_int m * 2 powi k" and m: "\<bar>m\<bar> < 2 ^ 24"
    and k: "- 149 \<le> k" "k \<le> 104"
  shows "binary32 x = x"
proof (cases "m = 0")
  case True
  with x show ?thesis by (simp add: binary32_def)
next
  case False
  then have x0: "x \<noteq> 0" using x by simp
  then have apos: "0 < \<bar>x\<bar>" by simp
  define q where "q = max (ilog2 \<bar>x\<bar>) (- 126) - 23"
  have "\<bar>x\<bar> = of_int \<bar>m\<bar> * 2 powi k" using x by (simp add: abs_mult)
  also have "\<dots> < 2 ^ 24 * 2 powi k"
  proof -
    have "(of_int \<bar>m\<bar> :: real) < 2 ^ 24"
      using m by (metis of_int_less_iff of_int_numeral of_int_power)
    then show ?thesis by simp
  qed
  also have "\<dots> = 2 powi (24 + k)" by (simp add: power_int_add)
  finally have up: "\<bar>x\<bar> < 2 powi (24 + k)" .
  from ilog2_lower [OF apos] up have "(2 :: real) powi ilog2 \<bar>x\<bar> < 2 powi (24 + k)" by simp
  then have "ilog2 \<bar>x\<bar> < 24 + k"
    using power_int_increasing [of "24 + k" "ilog2 \<bar>x\<bar>" "2 :: real"]
    by (cases "ilog2 \<bar>x\<bar> < 24 + k") auto
  with k have qk: "q \<le> k" by (simp add: q_def)
  have "x / 2 powi q = of_int m * 2 powi (k - q)"
    unfolding x by (simp add: power_int_diff)
  also have "(2 :: real) powi (k - q) = of_int (2 ^ nat (k - q))"
    using qk by (simp add: power_int_nonneg_exp)
  finally have xq: "x / 2 powi q = of_int (m * 2 ^ nat (k - q))" by simp
  have "of_int (round_even (x / 2 powi q)) * 2 powi q = (x / 2 powi q) * 2 powi q"
    unfolding xq by (simp only: round_even_int)
  also have "\<dots> = x" by simp
  finally have r: "of_int (round_even (x / 2 powi q)) * 2 powi q = x" .
  have "2 powi (24 + k) \<le> (2 :: real) powi 128"
    using k by (intro power_int_increasing) auto
  with up have "\<bar>x\<bar> < 2 ^ 128" by simp
  with r x0 show ?thesis by (simp add: binary32_def Let_def q_def [symmetric])
qed

lemma to_int_in_range:
  "- (2 ^ 31) \<le> toward_zero x \<Longrightarrow> toward_zero x < 2 ^ 31 \<Longrightarrow> to_int x = toward_zero x"
  by (simp add: to_int_def)

lemma scaled_size_half:
  assumes "\<bar>n\<bar> < 2 ^ 24"
  shows "scaled_size n (1 / 2) = c_div n 2"
proof -
  have a: "binary32 (of_int n) = of_int n"
    using assms by (intro binary32_exact [of _ n 0]) auto
  have b: "binary32 (of_int n * (1 / 2)) = of_int n * (1 / 2)"
    using assms by (intro binary32_exact [of _ n "- 1"]) (auto simp: power_int_minus)
  have "\<bar>c_div n 2\<bar> \<le> \<bar>n\<bar>"
    by (simp add: c_div_def abs_mult abs_sgn_eq) (smt (verit) div_by_1 zdiv_mono2)
  with assms have "- (2 ^ 31) \<le> c_div n 2 \<and> c_div n 2 < 2 ^ 31" by auto
  then have "to_int (of_int n * (1 / 2)) = c_div n 2"
    using to_int_in_range [of "of_int n * (1 / 2)"] by (simp only: toward_zero_half)
  then show ?thesis
    by (simp only: scaled_size_def a b)
qed


lemmas float_eval = scaled_size_def binary32_def ilog2_def compute_bitlen round_even_def
  Let_def power_int_minus to_int_def toward_zero_def to_useconds_def

lemma main_loop_result:
  assumes len: "length names = length ts" and Nle: "N \<le> length names"
    and lv: "length v = N" and k: "k = tracked e names N"
  shows "main_loop e names ts (int N) sc 0 v w =
     (if k < N then
        Some (Inl 1, to_cerr [Endl, Str ''Failed to load image at: '', Str (names ! k), Endl]
                       (does (concat (map (iteration_calls e names ts sc N) [0..<k])
                              @ [Imread (names ! k)]) w))
      else Some (Inr (samples e N),
                 does (concat (map (iteration_calls e names ts sc N) [0..<N])) w))"
proof -
  have kN: "k \<le> N" using k Nle by (simp add: tracked_le)
  have unroll: "main_loop e names ts (int N) sc (int 0) v w =
      main_loop e names ts (int N) sc (int k) (record_times e 0 k v)
        (does (concat (map (iteration_calls e names ts sc N) [0..<k])) w)"
    using len Nle kN k lv by (intro main_loop_unroll) (auto dest: tracked_good)
  show ?thesis
  proof (cases "k < N")
    case True
    then have "Mat_empty (imread e (names ! k))" using k Nle tracked_bad by blast
    with True len Nle unroll show ?thesis by (simp add: main_loop_bad)
  next
    case False
    with kN have kk: "k = N" by simp
    have "record_times e 0 N v = samples e N"
      using lv by (simp add: record_times_all samples_def)
    with unroll kk show ?thesis by (simp add: main_loop_end)
  qed
qed

lemma main_shutdown:
  assumes run: "main e argv = Some (c, w)" and sh: "Shutdown \<in> set (calls w)"
  obtains a0 a1 a2 a3 names ts msgs where
    "argv = [a0, a1, a2, a3]"
    "LoadImages (fs e) a3 ([], []) = Some ((names, ts), msgs)"
    "0 < size_to_int (length names)"
    "tracked e names (nat (size_to_int (length names))) = nat (size_to_int (length names))"
proof -
  have l4: "length argv = 4"
  proof (rule ccontr)
    assume "length argv \<noteq> 4"
    from main_usage [OF this, of e] run sh show False by (auto simp: to_cerr_def)
  qed
  then obtain a0 a1 a2 a3 where a: "argv = [a0, a1, a2, a3]" using argv4 by blast
  obtain names ts msgs where l: "LoadImages (fs e) a3 ([], []) = Some ((names, ts), msgs)"
    using LoadImages_total by blast
  have pos: "0 < size_to_int (length names)"
  proof (rule ccontr)
    assume "\<not> 0 < size_to_int (length names)"
    then have "size_to_int (length names) \<le> 0" by simp
    from main_empty [OF l this, of a0 a1 a2] run sh a show False by auto
  qed
  let ?N = "nat (size_to_int (length names))"
  have Nle: "?N \<le> length names" using size_to_int_le [of "length names"] by linarith
  have "tracked e names ?N = ?N"
  proof (rule ccontr)
    assume "tracked e names ?N \<noteq> ?N"
    with tracked_le [OF Nle, of e] have lt: "tracked e names ?N < ?N" by simp
    from main_trace [OF l pos refl refl, of a0 a1 a2] run sh a lt show False
      by (auto simp: ending_def no_shutdown_iteration)
  qed
  with a l pos show ?thesis by (rule that)
qed

section \<open>The example run\<close>

lemma ex_lines: "file_lines ex_manifest = [''# two frames'', ''0.0 a.png'', ''0.5 b.png x'', []]"
  unfolding ex_manifest_def by code_simp

lemma ex_line0: "process_line ''# two frames'' v = Some v" "process_line [] v = Some v"
  by (cases v; simp add: process_line_def)+

lemma ex_line1: "process_line ''0.0 a.png'' ([], []) = Some ([''a.png''], [0])"
  by (simp add: stream_defs)

lemma ex_line2: "process_line ''0.5 b.png x'' ([''a.png''], [0]) = Some ([''a.png'', ''b.png''], [0, 1 / 2])"
  by (simp add: stream_defs)

lemma ex_loaded:
  "LoadImages (fs ex_env) ''assoc.txt'' ([], []) = Some (([''a.png'', ''b.png''], [0, 1 / 2]), [])"
proof -
  have "fs ex_env ''assoc.txt'' = Some ex_manifest" by (simp add: ex_env_def)
  then show ?thesis
    by (simp add: LoadImages_opened ex_lines ex_line0 ex_line1 ex_line2)
qed

lemma ex_size: "size_to_int (length [''a.png'', ''b.png'']) = 2"
  by (simp add: size_to_int_small)

lemma ex_tracked: "tracked ex_env [''a.png'', ''b.png''] 2 = 2"
  by (simp add: tracked_def ex_env_def Mat_empty_def)

lemma ex_eval:
  "[0..<2] = [0, Suc 0]" "target_interval [0, 1 / 2] 2 0 = 1 / 2"
  "target_interval [0, 1 / 2] 2 (Suc 0) = 1 / 2"
  by (simp_all add: target_interval_def upt_rec)

lemma ex_bad_loaded:
  "LoadImages (fs ex_env_bad) ''assoc.txt'' ([], []) = Some (([''a.png'', ''b.png''], [0, 1 / 2]), [])"
proof -
  have "fs ex_env_bad = fs ex_env" by (simp add: ex_env_bad_def)
  then show ?thesis by (simp only: ex_loaded)
qed

lemma ex_run:
  "main ex_env ex_argv =
     Some (0, \<lparr>cout = banner 2 @ summary [1 / 10, 1], cerr = [],
               calls = [System_ctor ''ORBvoc.txt'' ''harbor.yaml'',
                 Imread ''a.png'', TrackMonocular \<lparr>rows = 2, cols = 3, data = [0]\<rparr> 0,
                 Usleep 400000,
                 Imread ''b.png'', TrackMonocular \<lparr>rows = 2, cols = 3, data = [0]\<rparr> (1 / 2),
                 Shutdown, SaveKeyFrameTrajectoryTUM ''KeyFrameTrajectory.txt'',
                 SaveTrajectoryTUM ''CameraTrajectory.txt'']\<rparr>)"
proof -
  have pos: "0 < size_to_int (length [''a.png'', ''b.png''])" by (simp only: ex_size)
  have N: "2 = nat (size_to_int (length [''a.png'', ''b.png'']))" by (simp only: ex_size)
  from main_trace [OF ex_loaded pos N ex_tracked [symmetric],
      of "''mono_aqualoc''" "''ORBvoc.txt''" "''harbor.yaml''"]
  show ?thesis
    by (simp add: ex_argv_def ex_eval ending_def frame_for_def float_eval ex_env_def
        iteration_calls_def pacing_calls_def samples_def)
qed




section \<open>Claims about LoadImages\<close>

text \<open>
  Claim C7. A line that is empty, or whose first character that is not white space is
  \<open>#\<close>, produces no entry, whatever else it contains: the loop body leaves both vectors
  as they are, and the vectors after a file are those after the file without that line.
\<close>

theorem comment_or_empty_line_no_entry:
  assumes "s = [] \<or> (dropWhile isspace s \<noteq> [] \<and> hd (dropWhile isspace s) = CHR ''#'')"
  shows "process_line s v = Some v
       \<and> after_lines (ls1 @ s # ls2) v = after_lines (ls1 @ ls2) v"
proof -
  have step: "process_line s u = Some u" for u
  proof (cases "s = []")
    case True
    then show ?thesis by (cases u) (simp add: process_line_eq)
  next
    case False
    with assms have "num_prefix (dropWhile isspace s) = None"
      by (simp add: num_prefix_hash del: dropWhile_eq_Nil_conv)
    then show ?thesis by (cases u) (simp add: process_line_eq)
  qed
  have "after_lines (s # ls2) u = after_lines ls2 u" for u
    by (simp add: step)
  then show ?thesis
    by (simp add: step after_lines_append split: option.splits)
qed

theorem comment_or_empty_line_no_entry_witness:
  "process_line ''  # 0.5 img.png'' ([''a.png''], [1]) = Some ([''a.png''], [1])
   \<and> process_line [] ([''a.png''], [1]) = Some ([''a.png''], [1])"
  using comment_or_empty_line_no_entry
      [where s = "''  # 0.5 img.png''" and v = "([''a.png''], [1])" and ?ls1.0 = "[]" and ?ls2.0 = "[]"]
    comment_or_empty_line_no_entry
      [where s = "[]" and v = "([''a.png''], [1])" and ?ls1.0 = "[]" and ?ls2.0 = "[]"]
  by (simp add: isspace_def)

text \<open>
  Claim C8. For every input file, well formed or not, \<open>LoadImages\<close> returns two vectors
  of equal length, and they have equal length after each line: the loop body either leaves
  both as they are or appends one path and one timestamp.
\<close>

theorem lengths_stay_equal:
  "(\<exists>ns ts msgs. LoadImages files path ([], []) = Some ((ns, ts), msgs) \<and> length ns = length ts)
   \<and> (files path = Some content \<longrightarrow>
        (\<forall>k. \<exists>ns ts. after_lines (take k (file_lines content)) ([], []) = Some (ns, ts)
                 \<and> length ns = length ts
                 \<and> (length (file_lines content) \<le> k \<longrightarrow>
                      LoadImages files path ([], []) = Some ((ns, ts), []))))
   \<and> (\<exists>ns' ts'. process_line s (ns0, ts0) = Some (ns', ts')
         \<and> ((ns' = ns0 \<and> ts' = ts0) \<or> (\<exists>p t. ns' = ns0 @ [p] \<and> ts' = ts0 @ [t])))"
proof (intro conjI impI allI)
  show "\<exists>ns ts msgs. LoadImages files path ([], []) = Some ((ns, ts), msgs) \<and> length ns = length ts"
  proof (cases "files path")
    case None
    then show ?thesis by (simp add: LoadImages_def)
  next
    case (Some content')
    from after_lines_lengths [of "[]" "[]" "file_lines content'"]
    obtain ns ts where "after_lines (file_lines content') ([], []) = Some (ns, ts)"
      and "length ns = length ts" by auto
    with Some show ?thesis by (simp add: LoadImages_opened)
  qed
next
  fix k
  assume op: "files path = Some content"
  from after_lines_lengths [of "[]" "[]" "take k (file_lines content)"]
  obtain ns ts where al: "after_lines (take k (file_lines content)) ([], []) = Some (ns, ts)"
    and len: "length ns = length ts" by auto
  have "length (file_lines content) \<le> k \<longrightarrow> LoadImages files path ([], []) = Some ((ns, ts), [])"
    using al op by (auto simp: LoadImages_opened)
  with al len
  show "\<exists>ns ts. after_lines (take k (file_lines content)) ([], []) = Some (ns, ts)
     \<and> length ns = length ts
     \<and> (length (file_lines content) \<le> k \<longrightarrow> LoadImages files path ([], []) = Some ((ns, ts), []))"
    by blast
next
  show "\<exists>ns' ts'. process_line s (ns0, ts0) = Some (ns', ts')
         \<and> ((ns' = ns0 \<and> ts' = ts0) \<or> (\<exists>p t. ns' = ns0 @ [p] \<and> ts' = ts0 @ [t]))"
    by (rule process_line_total)
qed

theorem lengths_stay_equal_witness:
  "\<exists>ns ts. after_lines (take 1 (file_lines ''0.5 a.png'')) ([], []) = Some (ns, ts)
     \<and> length ns = length ts
     \<and> LoadImages (\<lambda>p. Some ''0.5 a.png'') ''f'' ([], []) = Some ((ns, ts), [])"
proof -
  have len: "length (file_lines ''0.5 a.png'') \<le> 1" by code_simp
  from lengths_stay_equal [where files = "\<lambda>p. Some ''0.5 a.png''" and path = "''f''"
      and content = "''0.5 a.png''" and s = "[]" and ?ns0.0 = "[]" and ?ts0.0 = "[]"]
  have "\<exists>ns ts. after_lines (take 1 (file_lines ''0.5 a.png'')) ([], []) = Some (ns, ts)
     \<and> length ns = length ts
     \<and> (length (file_lines ''0.5 a.png'') \<le> 1 \<longrightarrow>
           LoadImages (\<lambda>p. Some ''0.5 a.png'') ''f'' ([], []) = Some ((ns, ts), []))"
    by blast
  with len show ?thesis by blast
qed





text \<open>
  Claim C2. For a well-formed file (on every line that is not empty and not a comment, the
  first token parses as a floating-point number: it is a decimal literal with a value in
  the range of a 64-bit float), \<open>LoadImages\<close> produces one entry for each line that is
  not empty, is not a comment and has a second token, in file order: the timestamp is the
  value of the first token as a decimal literal, the path is the second token as it stands,
  and the other tokens play no part. A comment is a line whose first character that is not
  white space is \<open>#\<close>.
\<close>

theorem LoadImages_wellformed:
  assumes op: "files path = Some content"
    and wf: "\<forall>s \<in> set (file_lines content). wellformed_line s"
  shows "\<exists>ns ts. LoadImages files path ([], []) = Some ((ns, ts), [])
       \<and> length ns = length (filter counted (file_lines content))
       \<and> length ts = length (filter counted (file_lines content))
       \<and> ns = map second_token (filter counted (file_lines content))
       \<and> ts = map first_time (filter counted (file_lines content))"
  using after_lines_wf [OF wf, of "[]" "[]"] op by (simp add: LoadImages_opened)

lemma lines_example:
  "file_lines (''# c'' @ [CHR 0x0A] @ ''  # 1 x.png'' @ [CHR 0x0A] @ ''-2.5e-1 a.png x''
       @ [CHR 0x0A, CHR 0x0A] @ ''1E3 b.png'' @ [CHR 0x0A] @ ''+.5'')
     = [''# c'', ''  # 1 x.png'', ''-2.5e-1 a.png x'', [], ''1E3 b.png'', ''+.5'']"
  by code_simp

lemma tokens_example:
  "tokens ''-2.5e-1 a.png x'' = [''-2.5e-1'', ''a.png'', ''x'']"
  "tokens ''1E3 b.png'' = [''1E3'', ''b.png'']"
  "tokens ''+.5'' = [''+.5'']" "tokens [] = []"
  by code_simp+

lemma literal_example:
  "double_of_token ''-2.5e-1'' = Some (- (1 / 4))" "double_of_token ''1E3'' = Some 1000"
  "double_of_token ''+.5'' = Some (1 / 2)"
  by (simp_all add: literal_defs)

lemma comment_example:
  "is_comment ''# c''" "is_comment ''  # 1 x.png''" "\<not> is_comment ''-2.5e-1 a.png x''"
  "\<not> is_comment ''1E3 b.png''" "\<not> is_comment ''+.5''"
  by (simp_all add: is_comment_def isspace_def)

theorem LoadImages_wellformed_witness:
  "LoadImages (\<lambda>p. if p = ''assoc.txt'' then
       Some (''# c'' @ [CHR 0x0A] @ ''  # 1 x.png'' @ [CHR 0x0A] @ ''-2.5e-1 a.png x''
             @ [CHR 0x0A, CHR 0x0A] @ ''1E3 b.png'' @ [CHR 0x0A] @ ''+.5'')
     else None) ''assoc.txt'' ([], [])
   = Some (([''a.png'', ''b.png''], [- (1 / 4), 1000]), [])"
proof -
  let ?content = "''# c'' @ [CHR 0x0A] @ ''  # 1 x.png'' @ [CHR 0x0A] @ ''-2.5e-1 a.png x''
       @ [CHR 0x0A, CHR 0x0A] @ ''1E3 b.png'' @ [CHR 0x0A] @ ''+.5''"
  let ?files = "\<lambda>p. if p = ''assoc.txt'' then Some ?content else None"
  have op: "?files ''assoc.txt'' = Some ?content" by simp
  have wf: "\<forall>s \<in> set (file_lines ?content). wellformed_line s"
    unfolding lines_example
    by (simp add: wellformed_line_def tokens_example literal_example comment_example)
  from LoadImages_wellformed [of ?files "''assoc.txt''" ?content, OF op wf]
  show ?thesis
    unfolding lines_example
    by (simp add: counted_def second_token_def first_time_def tokens_example literal_example
        comment_example)
qed

section \<open>Claims about main\<close>




text \<open>
  Claim C3. If entry \<open>i\<close> is the first whose image decodes to an empty matrix, the driver
  exits with code 1 and an error message that names the path of entry \<open>i\<close>; the last call
  it makes is the read of that image: it reads no later entry, tracks the frames before
  \<open>i\<close> only, and calls neither shutdown nor either export.
\<close>

theorem decode_failure_aborts:
  assumes loaded: "LoadImages (fs e) a3 ([], []) = Some ((names, ts), msgs)"
    and pos: "0 < size_to_int (length names)"
    and N: "N = nat (size_to_int (length names))"
    and i: "i < N"
    and bad: "Mat_empty (imread e (names ! i))"
    and first: "\<forall>j < i. \<not> Mat_empty (imread e (names ! j))"
  shows "\<exists>w. main e [a0, a1, a2, a3] = Some (1, w)
     \<and> cerr w = msgs @ [Endl, Str ''Failed to load image at: '', Str (names ! i), Endl]
     \<and> filter is_imread (calls w) = map (\<lambda>j. Imread (names ! j)) [0..<Suc i]
     \<and> filter is_track (calls w)
         = map (\<lambda>j. TrackMonocular (frame_for e (GetImageScale e) (names ! j)) (ts ! j)) [0..<i]
     \<and> last (calls w) = Imread (names ! i)
     \<and> Shutdown \<notin> set (calls w)
     \<and> (\<forall>p. SaveKeyFrameTrajectoryTUM p \<notin> set (calls w))
     \<and> (\<forall>p. SaveTrajectoryTUM p \<notin> set (calls w))"
proof -
  have Nle: "N \<le> length names" using size_to_int_le [of "length names"] N by linarith
  have k: "i = tracked e names N"
    using tracked_first_bad [OF i Nle bad first] by simp
  from main_trace [OF loaded pos N k, of a0 a1 a2] i
  show ?thesis
    by (simp add: ending_def filter_track_iterations filter_imread_iterations is_track_def
        is_imread_def iteration_calls_def pacing_calls_def)
qed

theorem decode_failure_aborts_witness:
  "\<exists>w. main ex_env_bad ex_argv = Some (1, w)
     \<and> cerr w = [Endl, Str ''Failed to load image at: '', Str ''b.png'', Endl]
     \<and> filter is_track (calls w) = [TrackMonocular \<lparr>rows = 2, cols = 3, data = [0]\<rparr> 0]
     \<and> last (calls w) = Imread ''b.png''
     \<and> Shutdown \<notin> set (calls w)"
proof -
  have pos: "0 < size_to_int (length [''a.png'', ''b.png''])" by (simp only: ex_size)
  have N: "2 = nat (size_to_int (length [''a.png'', ''b.png'']))" by (simp only: ex_size)
  have i: "Suc 0 < 2" by simp
  have bad: "Mat_empty (imread ex_env_bad ([''a.png'', ''b.png''] ! Suc 0))"
    by (simp add: ex_env_bad_def Mat_empty_def)
  have first: "\<forall>j < Suc 0. \<not> Mat_empty (imread ex_env_bad ([''a.png'', ''b.png''] ! j))"
    by (simp add: ex_env_bad_def Mat_empty_def)
  from decode_failure_aborts [OF ex_bad_loaded pos N i bad first,
      of "''mono_aqualoc''" "''ORBvoc.txt''" "''harbor.yaml''"]
  show ?thesis
    by (simp add: ex_argv_def frame_for_def float_eval ex_env_bad_def ex_env_def) blast
qed

text \<open>
  Claim C5. A run that reaches shutdown has \<open>N \<ge> 1\<close> timing samples, one for each frame
  tracked, and prints, after the banner, the median as the element at index \<open>N div 2\<close> of
  all the samples sorted in ascending order and the mean as the sum of all the samples
  divided by \<open>N\<close>.
\<close>

theorem summary_statistics:
  assumes run: "main e argv = Some (c, w)" and sh: "Shutdown \<in> set (calls w)"
  shows "\<exists>N. 1 \<le> N \<and> N = length (filter is_track (calls w))
     \<and> length (samples e N) = N
     \<and> samples e N = map (\<lambda>i. ttrack_of e (int i)) [0..<N]
     \<and> cout w = banner (int N)
               @ [Str ''-------'', Endl, Endl,
                  Str ''median tracking time: '', Num (sort (samples e N) ! (N div 2)), Endl,
                  Str ''mean tracking time: '', Num (sum_list (samples e N) / real N), Endl]"
proof -
  from run sh obtain a0 a1 a2 a3 names ts msgs where a: "argv = [a0, a1, a2, a3]"
    and l: "LoadImages (fs e) a3 ([], []) = Some ((names, ts), msgs)"
    and pos: "0 < size_to_int (length names)"
    and k: "tracked e names (nat (size_to_int (length names))) = nat (size_to_int (length names))"
    by (rule main_shutdown)
  let ?N = "nat (size_to_int (length names))"
  have ls: "length (samples e ?N) = ?N" by (simp add: samples_def)
  from main_trace [OF l pos refl k [symmetric], of a0 a1 a2] run a
  have w: "w = \<lparr>cout = banner (int ?N) @ summary (samples e ?N), cerr = msgs,
       calls = System_ctor a1 a2
               # concat (map (iteration_calls e names ts (GetImageScale e) ?N) [0..<?N])
               @ ending names ?N ?N\<rparr>"
    by simp
  have "1 \<le> ?N" using pos by simp
  moreover have "?N = length (filter is_track (calls w))"
    by (simp add: w ending_def filter_track_iterations is_track_def)
  moreover have "cout w = banner (int ?N)
               @ [Str ''-------'', Endl, Endl,
                  Str ''median tracking time: '', Num (sort (samples e ?N) ! (?N div 2)), Endl,
                  Str ''mean tracking time: '', Num (sum_list (samples e ?N) / real ?N), Endl]"
    by (simp add: w summary_def ls)
  moreover have "samples e ?N = map (\<lambda>i. ttrack_of e (int i)) [0..<?N]"
    by (simp add: samples_def)
  ultimately show ?thesis using ls by blast
qed

theorem summary_statistics_witness:
  "\<exists>c w. main ex_env ex_argv = Some (c, w) \<and> Shutdown \<in> set (calls w)
     \<and> cout w = banner 2
               @ [Str ''-------'', Endl, Endl,
                  Str ''median tracking time: '', Num 1, Endl,
                  Str ''mean tracking time: '', Num (11 / 20), Endl]"
proof -
  let ?w = "\<lparr>cout = banner 2 @ summary [1 / 10, 1], cerr = [],
               calls = [System_ctor ''ORBvoc.txt'' ''harbor.yaml'',
                 Imread ''a.png'', TrackMonocular \<lparr>rows = 2, cols = 3, data = [0]\<rparr> 0,
                 Usleep 400000,
                 Imread ''b.png'', TrackMonocular \<lparr>rows = 2, cols = 3, data = [0]\<rparr> (1 / 2),
                 Shutdown, SaveKeyFrameTrajectoryTUM ''KeyFrameTrajectory.txt'',
                 SaveTrajectoryTUM ''CameraTrajectory.txt'']\<rparr>"
  have sh: "Shutdown \<in> set (calls ?w)" by simp
  from summary_statistics [OF ex_run sh]
  have "cout ?w = banner 2
               @ [Str ''-------'', Endl, Endl,
                  Str ''median tracking time: '', Num 1, Endl,
                  Str ''mean tracking time: '', Num (11 / 20), Endl]"
    by (simp add: is_track_def ex_env_def)
  with ex_run sh show ?thesis by blast
qed

text \<open>
  Claim C6, as stated, fails where the \<open>float\<close> product differs from the product of the
  numbers: the width is the truncation of the product rounded to a \<open>float\<close>. For frames
  640 pixels wide and the scale 0.7 as a \<open>float\<close> (\<open>11744051 / 2^24\<close>), the product is
  447.99999, which truncates to 447, but as a \<open>float\<close> it is 448, and the frames the
  engine receives are 448 pixels wide.
\<close>

theorem float_product_counterexample:
  "GetImageScale scale07_env = 11744051 / 16777216
   \<and> binary32 (7 / 10) = 11744051 / 16777216
   \<and> cols (imread scale07_env ''a.png'') = 640
   \<and> toward_zero (of_int 640 * (11744051 / 16777216)) = 447
   \<and> scaled_size 640 (11744051 / 16777216) = 448
   \<and> main scale07_env ex_argv =
       Some (0, \<lparr>cout = banner 2 @ summary [1 / 10, 1], cerr = [],
                 calls = [System_ctor ''ORBvoc.txt'' ''harbor.yaml'',
                   Imread ''a.png'', TrackMonocular \<lparr>rows = 358, cols = 448, data = [0]\<rparr> 0,
                   Usleep 400000,
                   Imread ''b.png'',
                   TrackMonocular \<lparr>rows = 358, cols = 448, data = [0]\<rparr> (1 / 2),
                   Shutdown, SaveKeyFrameTrajectoryTUM ''KeyFrameTrajectory.txt'',
                   SaveTrajectoryTUM ''CameraTrajectory.txt'']\<rparr>)"
proof -
  have l: "LoadImages (fs scale07_env) ''assoc.txt'' ([], [])
      = Some (([''a.png'', ''b.png''], [0, 1 / 2]), [])"
  proof -
    have "fs scale07_env = fs ex_env" by (simp add: scale07_env_def)
    then show ?thesis by (simp only: ex_loaded)
  qed
  have pos: "0 < size_to_int (length [''a.png'', ''b.png''])" by (simp only: ex_size)
  have N: "2 = nat (size_to_int (length [''a.png'', ''b.png'']))" by (simp only: ex_size)
  have k: "2 = tracked scale07_env [''a.png'', ''b.png''] 2"
    by (simp add: tracked_def scale07_env_def Mat_empty_def)
  have w: "scaled_size 640 (11744051 / 16777216) = 448"
    and h: "scaled_size 512 (11744051 / 16777216) = 358"
    by (simp_all add: float_eval)
  from main_trace [OF l pos N k, of "''mono_aqualoc''" "''ORBvoc.txt''" "''harbor.yaml''"]
  have "main scale07_env ex_argv =
       Some (0, \<lparr>cout = banner 2 @ summary [1 / 10, 1], cerr = [],
                 calls = [System_ctor ''ORBvoc.txt'' ''harbor.yaml'',
                   Imread ''a.png'', TrackMonocular \<lparr>rows = 358, cols = 448, data = [0]\<rparr> 0,
                   Usleep 400000,
                   Imread ''b.png'',
                   TrackMonocular \<lparr>rows = 358, cols = 448, data = [0]\<rparr> (1 / 2),
                   Shutdown, SaveKeyFrameTrajectoryTUM ''KeyFrameTrajectory.txt'',
                   SaveTrajectoryTUM ''CameraTrajectory.txt'']\<rparr>)"
    by (simp add: ex_argv_def ex_eval ending_def frame_for_def iteration_calls_def
        pacing_calls_def samples_def to_useconds_def toward_zero_def scale07_env_def ex_env_def
        w h)
  moreover have "binary32 (7 / 10) = 11744051 / 16777216"
    by (simp add: float_eval)
  moreover have "toward_zero (of_int 640 * (11744051 / 16777216)) = 447"
    by (simp add: toward_zero_def)
  ultimately show ?thesis
    by (simp add: w) (simp add: scale07_env_def ex_env_def)
qed

text \<open>
  Claim C6, amended. Every frame handed to the engine is the decoded image itself when the
  scale the engine reported is 1, and otherwise the decoded image resized to a width and a
  height that are the conversions to \<open>int\<close> of the \<open>float\<close> products of its width and height
  with that scale (each product rounded to the nearest \<open>float\<close>), the same scale for every
  frame; the conversion is the integer truncation whenever that is in the range of
  \<open>int\<close>, and for the scale one half and a width and height below \<open>2^24\<close> the new
  dimensions are the halves of the old, truncated.
\<close>

theorem frames_scaled:
  assumes loaded: "LoadImages (fs e) a3 ([], []) = Some ((names, ts), msgs)"
    and pos: "0 < size_to_int (length names)"
    and N: "N = nat (size_to_int (length names))"
    and k: "k = tracked e names N"
  shows "\<exists>c w. main e [a0, a1, a2, a3] = Some (c, w)
     \<and> filter is_track (calls w)
         = map (\<lambda>i. TrackMonocular
                      (if GetImageScale e = 1 then imread e (names ! i)
                       else resize e (imread e (names ! i))
                              (to_int (binary32 (binary32 (of_int (cols (imread e (names ! i))))
                                                 * GetImageScale e)))
                              (to_int (binary32 (binary32 (of_int (rows (imread e (names ! i))))
                                                 * GetImageScale e))))
                      (ts ! i))
               [0..<k]
     \<and> (\<forall>x. - (2 ^ 31) \<le> toward_zero x \<and> toward_zero x < 2 ^ 31 \<longrightarrow>
              to_int x = toward_zero x)
     \<and> (\<forall>n. \<bar>n\<bar> < 2 ^ 24 \<longrightarrow>
              to_int (binary32 (binary32 (of_int n) * (1 / 2))) = c_div n 2)"
proof -
  have fr: "frame_for e (GetImageScale e) =
      (\<lambda>f. if GetImageScale e = 1 then imread e f
            else resize e (imread e f)
                   (to_int (binary32 (binary32 (of_int (cols (imread e f))) * GetImageScale e)))
                   (to_int (binary32 (binary32 (of_int (rows (imread e f))) * GetImageScale e))))"
    by (rule ext) (simp add: frame_for_def scaled_size_def)
  have half: "to_int (binary32 (binary32 (of_int n) * (1 / 2))) = c_div n 2"
    if "\<bar>n\<bar> < 2 ^ 24" for n
    using scaled_size_half [OF that] by (simp only: scaled_size_def)
  from main_trace [OF loaded pos N k, of a0 a1 a2]
  have "\<exists>c w. main e [a0, a1, a2, a3] = Some (c, w)
     \<and> filter is_track (calls w)
         = map (\<lambda>i. TrackMonocular (frame_for e (GetImageScale e) (names ! i)) (ts ! i)) [0..<k]"
    by (simp add: ending_def filter_track_iterations is_track_def)
  then show ?thesis
    unfolding fr using half to_int_in_range by blast
qed

theorem frames_scaled_witness:
  "\<exists>c w. main ex_env ex_argv = Some (c, w)
     \<and> filter is_track (calls w)
         = [TrackMonocular \<lparr>rows = 2, cols = 3, data = [0]\<rparr> 0,
            TrackMonocular \<lparr>rows = 2, cols = 3, data = [0]\<rparr> (1 / 2)]
     \<and> to_int (binary32 (binary32 (of_int 7) * (1 / 2))) = c_div 7 2"
proof -
  have pos: "0 < size_to_int (length [''a.png'', ''b.png''])" by (simp only: ex_size)
  have N: "2 = nat (size_to_int (length [''a.png'', ''b.png'']))" by (simp only: ex_size)
  from frames_scaled [OF ex_loaded pos N ex_tracked [symmetric],
      of "''mono_aqualoc''" "''ORBvoc.txt''" "''harbor.yaml''"]
  obtain c w where m: "main ex_env [''mono_aqualoc'', ''ORBvoc.txt'', ''harbor.yaml'', ''assoc.txt'']
        = Some (c, w)"
    and t: "filter is_track (calls w)
         = map (\<lambda>i. TrackMonocular
                      (if GetImageScale ex_env = 1 then imread ex_env ([''a.png'', ''b.png''] ! i)
                       else resize ex_env (imread ex_env ([''a.png'', ''b.png''] ! i))
                              (to_int (binary32 (binary32
                                 (of_int (cols (imread ex_env ([''a.png'', ''b.png''] ! i))))
                                       * GetImageScale ex_env)))
                              (to_int (binary32 (binary32
                                 (of_int (rows (imread ex_env ([''a.png'', ''b.png''] ! i))))
                                       * GetImageScale ex_env))))
                      ([0, 1 / 2] ! i))
               [0..<2]"
    and hf: "\<forall>n. \<bar>n\<bar> < 2 ^ 24 \<longrightarrow>
              to_int (binary32 (binary32 (of_int n) * (1 / 2))) = c_div n 2"
    by blast
  have "filter is_track (calls w)
         = [TrackMonocular \<lparr>rows = 2, cols = 3, data = [0]\<rparr> 0,
            TrackMonocular \<lparr>rows = 2, cols = 3, data = [0]\<rparr> (1 / 2)]"
    unfolding t by (simp add: ex_eval float_eval ex_env_def)
  moreover have "to_int (binary32 (binary32 (of_int 7) * (1 / 2))) = c_div 7 2"
    using hf [rule_format, of 7] by simp
  ultimately show ?thesis using m by (simp add: ex_argv_def)
qed







text \<open>
  Claim C10. Whenever the statistics phase is reached (the manifest check has passed and
  the main loop has ended with its vector of tracking times), the number of images is at
  least 1 and is the length of that vector, so the index \<open>nImages / 2\<close> of the median is
  within its bounds and the divisor of the mean is not zero; the statistics phase, and
  \<open>main\<close> as a whole, read no vector out of range.
\<close>

theorem statistics_within_bounds:
  assumes loaded: "LoadImages (fs e) a3 ([], []) = Some ((names, ts), msgs)"
    and nI: "nImages = size_to_int (length names)"
    and guard: "\<not> nImages \<le> 0"
    and loop: "main_loop e names ts nImages (GetImageScale e) 0 (replicate (nat nImages) 0) w0
               = Some (Inr vTimesTrack, w1)"
  shows "1 \<le> nImages
     \<and> int (length vTimesTrack) = nImages
     \<and> 0 \<le> c_div nImages 2 \<and> c_div nImages 2 < int (length vTimesTrack)
     \<and> vec_at (sort vTimesTrack) (c_div nImages 2) \<noteq> None
     \<and> real_of_int nImages \<noteq> 0
     \<and> statistics vTimesTrack nImages w \<noteq> None
     \<and> main e [a0, a1, a2, a3] \<noteq> None"
proof -
  let ?N = "nat nImages"
  have NN: "int ?N = nImages" using guard by simp
  from loaded have len: "length names = length ts" by (rule LoadImages_lengths)
  have Nle: "?N \<le> length names" using size_to_int_le [of "length names"] nI by linarith
  have res: "main_loop e names ts (int ?N) (GetImageScale e) 0 (replicate ?N 0) w0
      = Some (Inr vTimesTrack, w1)"
    using loop by (simp only: NN)
  have v: "vTimesTrack = samples e ?N"
    using main_loop_result [OF len Nle _ refl, of "replicate ?N 0" e "GetImageScale e" w0] res
    by (simp split: if_splits)
  have lv: "length vTimesTrack = ?N" by (simp add: v samples_def)
  have ne: "vTimesTrack \<noteq> []" using lv guard by auto
  have half: "c_div nImages 2 = nImages div 2" using guard by (simp add: c_div_half)
  have st: "statistics vTimesTrack nImages w = Some (to_cout (summary vTimesTrack) w)"
    using statistics_eq [OF ne, of w] lv NN by simp
  have md: "vec_at (sort vTimesTrack) (c_div nImages 2) \<noteq> None"
    using lv NN guard by (simp add: vec_at_def half)
  have "main e [a0, a1, a2, a3] \<noteq> None"
    using main_total [of e "[a0, a1, a2, a3]"] by auto
  with st md lv NN guard half show ?thesis by auto
qed

theorem statistics_within_bounds_witness:
  "int (length [1 / 10, 1 :: real]) = 2 \<and> c_div 2 2 < int (length [1 / 10, 1 :: real])
   \<and> statistics [1 / 10, 1] 2 \<lparr>cout = [], cerr = [], calls = []\<rparr> \<noteq> None
   \<and> main ex_env ex_argv \<noteq> None"
proof -
  have nI: "2 = size_to_int (length [''a.png'', ''b.png''])" by (simp only: ex_size)
  have guard: "\<not> (2 :: int) \<le> 0" by simp
  have loop: "main_loop ex_env [''a.png'', ''b.png''] [0, 1 / 2] 2 (GetImageScale ex_env) 0
       (replicate (nat 2) 0) \<lparr>cout = [], cerr = [], calls = []\<rparr>
     = Some (Inr [1 / 10, 1],
         does (concat (map (iteration_calls ex_env [''a.png'', ''b.png''] [0, 1 / 2]
                 (GetImageScale ex_env) 2) [0..<2])) \<lparr>cout = [], cerr = [], calls = []\<rparr>)"
    using main_loop_result [of "[''a.png'', ''b.png'']" "[0, 1 / 2]" 2 "replicate 2 0" 2 ex_env
        "GetImageScale ex_env" "\<lparr>cout = [], cerr = [], calls = []\<rparr>"]
    by (simp add: ex_tracked samples_def ex_eval) (simp add: ex_env_def)
  from statistics_within_bounds [OF ex_loaded nI guard loop,
      of "\<lparr>cout = [], cerr = [], calls = []\<rparr>" "''mono_aqualoc''" "''ORBvoc.txt''" "''harbor.yaml''"]
  show ?thesis by (simp add: ex_argv_def)
qed

end
